theory Spec2Isabelle
  imports Main "HOL-Library.Word"
begin

section \<open>Cells: candidate sets as bit masks\<close>

text \<open>
  The solver of \<^verbatim>\<open>main.go\<close> keeps, for every position of the 9x9 grid, the set of
  digits that are still possible there ("pencil marks").  A \<^verbatim>\<open>Cell\<close> is a Go
  \<^verbatim>\<open>uint16\<close>, digits are Go \<^verbatim>\<open>uint\<close> (64 bit), coordinates are Go \<^verbatim>\<open>int\<close>.
  Bit \<open>d - 1\<close> of a cell stands for the digit \<open>d\<close>.  The shift \<^verbatim>\<open>1 << (i - 1)\<close> is
  computed in the cell's own type, so a shift count of 16 or more (in particular the
  wrapped count of \<open>i = 0\<close>) yields the empty mask.
\<close>


unbundle bit_operations_syntax

type_synonym Cell = "16 word"
type_synonym uint = "64 word"

text \<open>\<^verbatim>\<open>const Size = 9\<close>\<close>

definition Size :: nat where
  "Size = 9"

text \<open>\<^verbatim>\<open>All()\<close>: the cell with no information, \<^verbatim>\<open>1<<Size - 1\<close>.  (HOL has a constant \<open>All\<close> of its own, hence the suffix.)\<close>

definition All_Cell :: Cell where
  "All_Cell = push_bit Size 1 - 1"

text \<open>
  The methods of \<^verbatim>\<open>Cell\<close>.  The pointer receivers mutate the cell in place and
  return it for chaining; the model returns the new value of the cell.
\<close>

definition Cell_Clear :: "Cell \<Rightarrow> Cell" where
  "Cell_Clear c = 0"

definition Cell_Set :: "Cell \<Rightarrow> uint \<Rightarrow> Cell" where
  "Cell_Set c i = c OR push_bit (unat (i - 1)) 1"

definition Cell_Drop :: "Cell \<Rightarrow> uint \<Rightarrow> Cell" where
  "Cell_Drop c i = c AND NOT (push_bit (unat (i - 1)) 1)"

definition Cell_IsSet :: "Cell \<Rightarrow> uint \<Rightarrow> bool" where
  "Cell_IsSet c i = (c AND push_bit (unat (i - 1)) 1 \<noteq> 0)"

definition Cell_Single :: "Cell \<Rightarrow> bool" where
  "Cell_Single c = (c AND (c - 1) = 0 \<and> c \<noteq> 0)"

text \<open>
  \<^verbatim>\<open>bits.TrailingZeros\<close> and \<^verbatim>\<open>bits.OnesCount\<close> of the Go library on a 64-bit
  \<^verbatim>\<open>uint\<close>: the number of zero bits below the lowest one bit (64 for the value 0), and the
  number of one bits.
\<close>

definition TrailingZeros :: "uint \<Rightarrow> nat" where
  "TrailingZeros x = length (takeWhile (\<lambda>n. \<not> bit x n) [0..<64])"

definition OnesCount :: "uint \<Rightarrow> nat" where
  "OnesCount x = length (filter (bit x) [0..<64])"

definition Cell_Digit :: "Cell \<Rightarrow> uint" where
  "Cell_Digit c = 1 + of_nat (TrailingZeros (ucast c))"

definition Cell_Count :: "Cell \<Rightarrow> int" where
  "Cell_Count c = int (OnesCount (ucast c))"

subsection \<open>Bit-level facts about cells\<close>

lemma word_dec_bits:
  fixes c :: "'a::len word"
  assumes n: "bit c n" and low: "\<And>m. m < n \<Longrightarrow> \<not> bit c m"
  shows "bit (c - 1) m \<longleftrightarrow> (m < n \<or> (n < m \<and> bit c m)) \<and> m < LENGTH('a)"
proof -
  define hi where "hi = c AND NOT (mask (Suc n))"
  have nlen: "n < LENGTH('a)" using n by (rule bit_imp_le_length)
  have c_eq: "c = hi + 2 ^ n"
  proof -
    have "hi + 2 ^ n = hi OR 2 ^ n"
      by (rule disjunctive_add) (auto simp: hi_def bit_simps)
    also have "\<dots> = c"
    proof (rule bit_word_eqI)
      fix k assume k: "k < LENGTH('a)"
      consider "k < n" | "k = n" | "n < k" by linarith
      then show "bit (hi OR 2 ^ n) k = bit c k"
        using n low nlen k by cases (auto simp: hi_def bit_simps)
    qed
    finally show ?thesis by simp
  qed
  have "c - 1 = hi + mask n"
    by (simp add: c_eq mask_eq_exp_minus_1)
  also have "\<dots> = hi OR mask n"
    by (rule disjunctive_add) (auto simp: hi_def bit_simps)
  finally have "bit (c - 1) m = bit (hi OR mask n) m"
    by (simp only:)
  also have "\<dots> \<longleftrightarrow> (m < n \<or> (n < m \<and> bit c m)) \<and> m < LENGTH('a)"
  proof -
    consider "m < n" | "m = n" | "n < m" by linarith
    then show ?thesis
      using nlen by cases (auto simp: hi_def bit_simps dest: bit_imp_le_length)
  qed
  finally show ?thesis .
qed


lemma bit_exp_Cell [simp]:
  "bit (2 ^ n :: Cell) m \<longleftrightarrow> m = n \<and> n < 16"
  by (auto simp: bit_simps)

lemma word_neq_0_iff_bit: "w \<noteq> 0 \<longleftrightarrow> (\<exists>m. bit w m)" for w :: "'a::len word"
proof
  assume "w \<noteq> 0"
  then show "\<exists>m. bit w m" by (auto simp: bit_eq_iff)
next
  assume "\<exists>m. bit w m"
  then show "w \<noteq> 0" by auto
qed

lemma Cell_IsSet_iff: "Cell_IsSet c d \<longleftrightarrow> bit c (unat (d - 1))"
proof -
  have "c AND push_bit (unat (d - 1)) 1 \<noteq> 0 \<longleftrightarrow> (\<exists>m. bit (c AND push_bit (unat (d - 1)) 1) m)"
    by (rule word_neq_0_iff_bit)
  also have "\<dots> \<longleftrightarrow> bit c (unat (d - 1))"
    by (auto simp: bit_and_iff dest: bit_imp_le_length)
  finally show ?thesis by (simp add: Cell_IsSet_def)
qed

lemma bit_Cell_Drop: "bit (Cell_Drop c d) m \<longleftrightarrow> bit c m \<and> m \<noteq> unat (d - 1)"
  by (auto simp: Cell_Drop_def bit_and_iff bit_not_iff dest: bit_imp_le_length)

lemma bit_Cell_Set: "bit (Cell_Set c d) m \<longleftrightarrow> bit c m \<or> (m = unat (d - 1) \<and> m < 16)"
  by (auto simp: Cell_Set_def bit_or_iff)

lemma bit_Cell_Clear [simp]: "\<not> bit (Cell_Clear c) m"
  by (simp add: Cell_Clear_def)

lemma TrailingZeros_props:
  fixes c :: Cell
  assumes "c \<noteq> 0"
  defines "n \<equiv> TrailingZeros (ucast c)"
  shows "n < 16" and "bit c n" and "\<And>m. m < n \<Longrightarrow> \<not> bit c m"
proof -
  let ?P = "\<lambda>n. \<not> bit (ucast c :: uint) n"
  let ?xs = "[0..<64]"
  from assms(1) obtain k where k: "bit c k" by (auto simp: bit_eq_iff)
  then have k16: "k < 16" by (auto dest: bit_imp_le_length)
  have n_def': "n = length (takeWhile ?P ?xs)" by (simp add: n_def TrailingZeros_def)
  have below: "?P m" if "m < n" for m
  proof -
    have m: "m < length (takeWhile ?P ?xs)" using that n_def' by simp
    have "length (takeWhile ?P ?xs) \<le> length ?xs" by (rule length_takeWhile_le)
    with m have m64: "m < 64" by simp
    from m have "takeWhile ?P ?xs ! m \<in> set (takeWhile ?P ?xs)" by (rule nth_mem)
    then have "?P (takeWhile ?P ?xs ! m)" by (rule set_takeWhileD [THEN conjunct2])
    moreover from m have "takeWhile ?P ?xs ! m = ?xs ! m" by (rule takeWhile_nth)
    moreover from m64 have "?xs ! m = m" by simp
    ultimately show ?thesis by simp
  qed
  have "\<not> k < n" using below [of k] k k16 by (auto simp: bit_ucast_iff)
  then have nk: "n \<le> k" by simp
  then have "length (takeWhile ?P ?xs) < length ?xs" using k16 n_def' by simp
  then have "\<not> ?P (?xs ! n)" unfolding n_def' by (rule nth_length_takeWhile)
  then show "bit c n" using nk k16 by (simp add: bit_ucast_iff)
  show "n < 16" using nk k16 by simp
  show "\<not> bit c m" if "m < n" for m 
    using below [OF that] that nk k16 by (simp add: bit_ucast_iff)
qed

lemma Cell_and_dec_bits:
  fixes c :: Cell
  assumes "c \<noteq> 0"
  shows "bit (c AND (c - 1)) m \<longleftrightarrow> TrailingZeros (ucast c) < m \<and> bit c m"
proof -
  note tz = TrailingZeros_props [OF assms]
  have "bit (c - 1) m \<longleftrightarrow> (m < TrailingZeros (ucast c) \<or> (TrailingZeros (ucast c) < m \<and> bit c m)) \<and> m < 16"
    using word_dec_bits [of c "TrailingZeros (ucast c)" m] tz(2,3) by simp
  then show ?thesis
    using tz(3) [of m] by (auto simp: bit_and_iff dest: bit_imp_le_length)
qed

lemma Cell_Single_iff:
  "Cell_Single c \<longleftrightarrow> c \<noteq> 0 \<and> (\<forall>m. bit c m \<longleftrightarrow> m = TrailingZeros (ucast c))"
proof (cases "c = 0")
  case True
  then show ?thesis by (simp add: Cell_Single_def)
next
  case False
  note tz = TrailingZeros_props [OF False]
  have "c AND (c - 1) = 0 \<longleftrightarrow> (\<forall>m. \<not> bit (c AND (c - 1)) m)"
    using word_neq_0_iff_bit [of "c AND (c - 1)"] by blast
  also have "\<dots> \<longleftrightarrow> (\<forall>m. \<not> (TrailingZeros (ucast c) < m \<and> bit c m))"
    by (simp only: Cell_and_dec_bits [OF False])
  also have "\<dots> \<longleftrightarrow> (\<forall>m. bit c m \<longleftrightarrow> m = TrailingZeros (ucast c))"
    using tz(2,3) by (metis linorder_neqE_nat)
  finally show ?thesis using False by (simp add: Cell_Single_def)
qed

lemma Cell_Single_unique_bit:
  "Cell_Single c \<longleftrightarrow> (\<exists>n. \<forall>m. bit c m \<longleftrightarrow> m = n)"
proof
  assume "Cell_Single c"
  then show "\<exists>n. \<forall>m. bit c m \<longleftrightarrow> m = n" by (auto simp: Cell_Single_iff)
next
  assume "\<exists>n. \<forall>m. bit c m \<longleftrightarrow> m = n"
  then obtain n where n: "\<And>m. bit c m \<longleftrightarrow> m = n" by blast
  then have nz: "c \<noteq> 0" by (auto simp: word_neq_0_iff_bit)
  from TrailingZeros_props(2) [OF nz] n have "TrailingZeros (ucast c) = n" by simp
  with n nz show "Cell_Single c" by (simp add: Cell_Single_iff)
qed

lemma unat_Cell_Digit_dec:
  assumes "c \<noteq> 0"
  shows "unat (Cell_Digit c - 1) = TrailingZeros (ucast c)"
proof -
  have "TrailingZeros (ucast c) < 16" using assms by (rule TrailingZeros_props)
  then show ?thesis by (simp add: Cell_Digit_def unat_of_nat)
qed

lemma digit_eq_iff: "unat (d - 1) = unat (e - 1) \<longleftrightarrow> d = e" for d e :: uint
  by (metis add_diff_cancel_left' diff_add_cancel word_unat_eq_iff)

lemma Cell_Single_IsSet_iff:
  assumes "Cell_Single c"
  shows "Cell_IsSet c d \<longleftrightarrow> d = Cell_Digit c"
proof -
  from assms have nz: "c \<noteq> 0" and b: "\<And>m. bit c m \<longleftrightarrow> m = TrailingZeros (ucast c)"
    by (simp_all add: Cell_Single_iff)
  have "Cell_IsSet c d \<longleftrightarrow> unat (d - 1) = unat (Cell_Digit c - 1)"
    by (simp add: Cell_IsSet_iff b unat_Cell_Digit_dec [OF nz])
  then show ?thesis by (simp add: digit_eq_iff)
qed

lemma Cell_IsSet_zero [simp]: "\<not> Cell_IsSet 0 d"
  by (simp add: Cell_IsSet_iff)

lemma Cell_not_Single_zero [simp]: "\<not> Cell_Single 0"
  by (simp add: Cell_Single_def)

lemma Cell_IsSet_Drop: "Cell_IsSet (Cell_Drop c d) e \<longleftrightarrow> Cell_IsSet c e \<and> e \<noteq> d"
  by (simp add: Cell_IsSet_iff bit_Cell_Drop digit_eq_iff)

lemma Cell_IsSet_Set_Clear:
  "Cell_IsSet (Cell_Set (Cell_Clear c) d) e \<longleftrightarrow> e = d \<and> unat (d - 1) < 16"
  by (auto simp: Cell_IsSet_iff bit_Cell_Set digit_eq_iff)

lemma Cell_eqI:
  assumes "\<And>d. Cell_IsSet c d \<longleftrightarrow> Cell_IsSet c' d"
  shows "c = c'"
proof (rule bit_word_eqI)
  fix n assume "n < LENGTH(16)"
  then have "unat ((1 + of_nat n :: uint) - 1) = n"
    by (simp add: unat_of_nat)
  with assms [of "1 + of_nat n"] show "bit c n \<longleftrightarrow> bit c' n"
    by (simp add: Cell_IsSet_iff)
qed

lemma Cell_Set_Clear_Digit:
  assumes "Cell_Single c"
  shows "Cell_Set (Cell_Clear c) (Cell_Digit c) = c"
proof (rule Cell_eqI)
  fix d
  from assms have "c \<noteq> 0" by (auto simp: Cell_Single_def)
  then have "unat (Cell_Digit c - 1) < 16"
    by (simp add: unat_Cell_Digit_dec TrailingZeros_props)
  then show "Cell_IsSet (Cell_Set (Cell_Clear c) (Cell_Digit c)) d \<longleftrightarrow> Cell_IsSet c d"
    by (simp add: Cell_IsSet_Set_Clear Cell_Single_IsSet_iff [OF assms])
qed

lemma unat_Cell_Drop_less:
  assumes "Cell_IsSet c d"
  shows "unat (Cell_Drop c d) < unat c"
proof -
  have "Cell_Drop c d \<le> c" by (simp add: Cell_Drop_def word_and_le2)
  moreover have "Cell_Drop c d \<noteq> c"
  proof
    assume "Cell_Drop c d = c"
    then have "Cell_IsSet (Cell_Drop c d) d" using assms by simp
    then show False by (simp add: Cell_IsSet_Drop)
  qed
  ultimately have "Cell_Drop c d < c" by simp
  then show ?thesis by (simp add: word_less_nat_alt)
qed

lemma Cell_lowest_bit:
  fixes c :: Cell
  assumes "c \<noteq> 0"
  shows "bit (c AND - c) m \<longleftrightarrow> m = TrailingZeros (ucast c)"
proof -
  note tz = TrailingZeros_props [OF assms]
  have "bit (c - 1) m \<longleftrightarrow> (m < TrailingZeros (ucast c) \<or> (TrailingZeros (ucast c) < m \<and> bit c m)) \<and> m < 16"
    using word_dec_bits [of c "TrailingZeros (ucast c)" m] tz(2,3) by simp
  then show ?thesis
    using tz(2) tz(3) [of m] 
    by (auto simp: bit_and_iff bit_minus_iff dest: bit_imp_le_length)
qed

lemma bit_flip_lowest:
  fixes c :: Cell
  assumes "c \<noteq> 0"
  shows "bit (c XOR (c AND - c)) m \<longleftrightarrow> bit c m \<and> m \<noteq> TrailingZeros (ucast c)"
  using TrailingZeros_props(2) [OF assms]
  by (auto simp: bit_xor_iff Cell_lowest_bit [OF assms] simp del: bit_and_iff)

lemma flip_lowest_eq_Drop:
  fixes c :: Cell
  assumes "c \<noteq> 0"
  shows "c XOR (c AND - c) = Cell_Drop c (Cell_Digit c)"
  by (rule bit_word_eqI)
    (simp add: bit_flip_lowest [OF assms] bit_Cell_Drop unat_Cell_Digit_dec [OF assms])

lemma Cell_IsSet_Digit:
  assumes "c \<noteq> 0"
  shows "Cell_IsSet c (Cell_Digit c)"
  using assms by (simp add: Cell_IsSet_iff unat_Cell_Digit_dec TrailingZeros_props)

text \<open>
  \<^verbatim>\<open>Digits\<close> iterates the candidates of a cell value: while the value is not 0 it
  yields \<^verbatim>\<open>Digit\<close> and flips the lowest one bit (\<^verbatim>\<open>c ^= c & -c\<close>).  The sequence is
  modelled as the list of the yielded digits; the loop ends because every round clears a
  bit.
\<close>

function Cell_Digits :: "Cell \<Rightarrow> uint list" where
  "Cell_Digits c = (if c \<noteq> 0 then Cell_Digit c # Cell_Digits (c XOR (c AND - c)) else [])"
  by pat_completeness auto
termination
proof (relation "measure unat")
  show "wf (measure (unat :: Cell \<Rightarrow> nat))" by simp
next
  fix c :: Cell
  assume "c \<noteq> 0"
  then have "unat (Cell_Drop c (Cell_Digit c)) < unat c"
    by (intro unat_Cell_Drop_less Cell_IsSet_Digit)
  then show "(c XOR (c AND - c), c) \<in> measure unat"
    using \<open>c \<noteq> 0\<close> by (simp add: flip_lowest_eq_Drop)
qed

declare Cell_Digits.simps [simp del]


lemma Cell_IsSet_less_Digit:
  assumes "Cell_IsSet c d" "d \<noteq> Cell_Digit c"
  shows "Cell_Digit c < d"
proof -
  from assms(1) have nz: "c \<noteq> 0" by auto
  note tz = TrailingZeros_props [OF nz]
  from assms(1) have b: "bit c (unat (d - 1))" by (simp add: Cell_IsSet_iff)
  then have lt16: "unat (d - 1) < 16" by (auto dest: bit_imp_le_length)
  have "unat (d - 1) \<noteq> unat (Cell_Digit c - 1)" using assms(2) by (simp add: digit_eq_iff)
  then have "unat (d - 1) \<noteq> TrailingZeros (ucast c)"
    by (simp add: unat_Cell_Digit_dec [OF nz])
  moreover have "\<not> unat (d - 1) < TrailingZeros (ucast c)"
    using b tz(3) by blast
  ultimately have lt: "TrailingZeros (ucast c) < unat (d - 1)"
    by linarith
  define e where "e = d - 1"
  have d: "d = 1 + e" by (simp add: e_def)
  have "unat (1 + e) = 1 + unat e"
    using lt16 unfolding e_def [symmetric] by (simp add: unat_word_ariths)
  with d have ud: "unat d = 1 + unat (d - 1)" by (simp add: e_def)
  have "unat (Cell_Digit c) = 1 + TrailingZeros (ucast c)"
    using tz(1) by (simp add: Cell_Digit_def unat_word_ariths unat_of_nat)
  with ud lt show ?thesis by (simp add: word_less_nat_alt)
qed

lemma set_Cell_Digits: "set (Cell_Digits c) = {d. Cell_IsSet c d}"
proof (induction c rule: Cell_Digits.induct)
  case (1 c)
  show ?case
  proof (cases "c = 0")
    case True
    then show ?thesis by (simp add: Cell_Digits.simps)
  next
    case False
    have "set (Cell_Digits c) = insert (Cell_Digit c) (set (Cell_Digits (c XOR (c AND - c))))"
      using False by (subst Cell_Digits.simps) simp
    also have "\<dots> = insert (Cell_Digit c) {d. Cell_IsSet (Cell_Drop c (Cell_Digit c)) d}"
      using 1 [OF False] by (simp add: flip_lowest_eq_Drop [OF False])
    also have "\<dots> = {d. Cell_IsSet c d}"
      using Cell_IsSet_Digit [OF False] by (auto simp: Cell_IsSet_Drop)
    finally show ?thesis .
  qed
qed

lemma sorted_Cell_Digits: "sorted_wrt (<) (Cell_Digits c)"
proof (induction c rule: Cell_Digits.induct)
  case (1 c)
  show ?case
  proof (cases "c = 0")
    case True
    then show ?thesis by (simp add: Cell_Digits.simps)
  next
    case False
    have eq: "Cell_Digits c = Cell_Digit c # Cell_Digits (Cell_Drop c (Cell_Digit c))"
      using False by (subst Cell_Digits.simps) (simp add: flip_lowest_eq_Drop)
    have "Cell_Digit c < d" if "d \<in> set (Cell_Digits (Cell_Drop c (Cell_Digit c)))" for d
      using that by (auto simp: set_Cell_Digits Cell_IsSet_Drop intro: Cell_IsSet_less_Digit)
    moreover have "sorted_wrt (<) (Cell_Digits (Cell_Drop c (Cell_Digit c)))"
      using 1 [OF False] by (simp add: flip_lowest_eq_Drop [OF False])
    ultimately show ?thesis by (simp add: eq)
  qed
qed

lemma OnesCount_ucast: "OnesCount (ucast c) = card {n. bit c n}" for c :: Cell
proof -
  have "OnesCount (ucast c) = card (set (filter (bit (ucast c :: uint)) [0..<64]))"
    unfolding OnesCount_def by (rule distinct_card [symmetric]) simp
  also have "set (filter (bit (ucast c :: uint)) [0..<64]) = {n. bit c n}"
    by (auto simp: bit_ucast_iff dest: bit_imp_le_length)
  finally show ?thesis .
qed

lemma Cell_Single_iff_Count: "Cell_Single c \<longleftrightarrow> Cell_Count c = 1"
proof -
  have "Cell_Single c \<longleftrightarrow> (\<exists>n. {m. bit c m} = {n})"
    by (auto simp: Cell_Single_unique_bit)
  also have "\<dots> \<longleftrightarrow> card {m. bit c m} = 1"
    by (simp add: card_1_singleton_iff)
  finally show ?thesis by (simp add: Cell_Count_def OnesCount_ucast)
qed

subsection \<open>Claims about cells\<close>

text \<open>
  Claim C8.  For every cell value, \<^verbatim>\<open>Digits\<close> yields exactly the digits \<open>d\<close> for which
  \<^verbatim>\<open>IsSet(d)\<close> holds, in strictly ascending order.  The sequence is a finite list computed
  from the cell's value alone, so iterating it changes nothing and asking again gives the
  same list.
\<close>

theorem Cell_Digits_exact_ascending:
  "set (Cell_Digits c) = {d. Cell_IsSet c d} \<and> sorted_wrt (<) (Cell_Digits c)"
  by (simp add: set_Cell_Digits sorted_Cell_Digits)

text \<open>
  Claim C9.  For every cell value, \<^verbatim>\<open>Single\<close> is true exactly when \<^verbatim>\<open>Count\<close> is 1.
\<close>

theorem Cell_Single_iff_Count_1:
  "Cell_Single c \<longleftrightarrow> Cell_Count c = 1"
  by (rule Cell_Single_iff_Count)

section \<open>The board and the propagating assignment\<close>

text \<open>
  A \<^verbatim>\<open>Board\<close> is the array \<^verbatim>\<open>[Size * Size]Cell\<close>, modelled as the list of its 81
  cells in row-major order.  The methods have pointer receivers and update the array in
  place; the model passes the board in and returns the updated board.  The only way an
  operation can fail is Go's run-time panic for an index outside the array; it is the
  error value below.  Coordinates are Go \<^verbatim>\<open>int\<close>s, modelled as unbounded integers: every
  statement below is about coordinates 0..8, where \<^verbatim>\<open>i*Size+j\<close> stays far from overflow.
\<close>

datatype error = IndexOutOfRange

type_synonym Board = "Cell list"

text \<open>\<^verbatim>\<open>EmptyBoard\<close>: a zero-valued array whose 81 entries are then set to \<^verbatim>\<open>All()\<close>.\<close>

definition EmptyBoard :: Board where
  "EmptyBoard = foldl (\<lambda>b i. b[i := All_Cell]) (replicate (Size * Size) 0) [0..<Size * Size]"

text \<open>
  \<^verbatim>\<open>At(i, j)\<close> is \<^verbatim>\<open>&b[i*Size+j]\<close>.  The pointer is modelled by the index it points at;
  the index expression panics unless \<open>0 \<le> i*Size+j < len(b)\<close>.
\<close>

definition Board_At :: "Board \<Rightarrow> int \<Rightarrow> int \<Rightarrow> error + nat" where
  "Board_At b i j =
     (let k = i * int Size + j
      in if 0 \<le> k \<and> k < int (length b) then Inr (nat k) else Inl IndexOutOfRange)"

text \<open>
  The iterators \<^verbatim>\<open>Row\<close>, \<^verbatim>\<open>Col\<close> and \<^verbatim>\<open>Box\<close> as the lists of what they yield: the
  key (a column index, a row index, a coordinate pair) and the cell pointer computed by
  \<^verbatim>\<open>At\<close>, in the order of the loops.  \<^verbatim>\<open>Box\<close> skips the cell itself.  Go's integer
  division truncates towards zero (\<open>quo\<close>).
\<close>

definition Board_Row :: "Board \<Rightarrow> int \<Rightarrow> (int \<times> (error + nat)) list" where
  "Board_Row b i = map (\<lambda>j. (j, Board_At b i j)) (map int [0..<Size])"

definition Board_Col :: "Board \<Rightarrow> int \<Rightarrow> (int \<times> (error + nat)) list" where
  "Board_Col b j = map (\<lambda>i. (i, Board_At b i j)) (map int [0..<Size])"

definition quo :: "int \<Rightarrow> int \<Rightarrow> int" where
  "quo a b = sgn a * sgn b * (\<bar>a\<bar> div \<bar>b\<bar>)"

definition Board_Box :: "Board \<Rightarrow> int \<Rightarrow> int \<Rightarrow> ((int \<times> int) \<times> (error + nat)) list" where
  "Board_Box b i j =
     concat (map (\<lambda>x.
       concat (map (\<lambda>y. if x = i \<and> y = j then [] else [((x, y), Board_At b x y)])
         [quo j 3 * 3 ..  quo j 3 * 3 + 3 - 1]))
       [quo i 3 * 3 .. quo i 3 * 3 + 3 - 1])"

text \<open>
  \<^verbatim>\<open>Set(i, j, d)\<close> overwrites the cell with the one digit and then runs three loops of
  the same shape, over the row, the column and the box:
  \<^verbatim>\<open>if guard && c.IsSet(d) && c.Drop(d).Single() { b.Set(x, y, c.Digit()) }\<close>,
  where the guard is \<^verbatim>\<open>j != jj\<close> for the row, \<^verbatim>\<open>i != ii\<close> for the column and absent for
  the box.  A \<open>visit\<close> is one round of such a loop: the guard, the coordinates passed to the
  recursive call, and the pointer the iterator yielded.  \<open>Board_Set_range\<close> is the loop.
  \<^verbatim>\<open>Drop\<close> is executed whenever the guard and \<^verbatim>\<open>IsSet\<close> hold, also when the cell is not
  Single afterwards.  The iterators only compute indices, so their lists are taken from
  the board as it is when \<^verbatim>\<open>Set\<close> starts; its length never changes.
\<close>

type_synonym visit = "bool \<times> (int \<times> int) \<times> (error + nat)"

function Board_Set :: "Board \<Rightarrow> int \<Rightarrow> int \<Rightarrow> uint \<Rightarrow> error + Board"
  and Board_Set_range :: "Board \<Rightarrow> uint \<Rightarrow> visit list \<Rightarrow> error + Board"
where
  "Board_Set b i j d =
     (case Board_At b i j of
        Inl e \<Rightarrow> Inl e
      | Inr k \<Rightarrow>
          (case Board_Set_range (b[k := Cell_Set (Cell_Clear (b ! k)) d]) d
                  (map (\<lambda>(jj, c). (j \<noteq> jj, (i, jj), c)) (Board_Row b i)) of
             Inl e \<Rightarrow> Inl e
           | Inr b1 \<Rightarrow>
               (case Board_Set_range b1 d
                       (map (\<lambda>(ii, c). (i \<noteq> ii, (ii, j), c)) (Board_Col b j)) of
                  Inl e \<Rightarrow> Inl e
                | Inr b2 \<Rightarrow>
                    Board_Set_range b2 d
                      (map (\<lambda>(xy, c). (True, xy, c)) (Board_Box b i j)))))"
| "Board_Set_range b d [] = Inr b"
| "Board_Set_range b d ((g, (x, y), c) # rest) =
     (case c of
        Inl e \<Rightarrow> Inl e
      | Inr k \<Rightarrow>
          if g \<and> Cell_IsSet (b ! k) d then
            (let b' = b[k := Cell_Drop (b ! k) d]
             in if Cell_Single (b' ! k) then
                  (case Board_Set b' x y (Cell_Digit (b' ! k)) of
                     Inl e \<Rightarrow> Inl e
                   | Inr b'' \<Rightarrow> Board_Set_range b'' d rest)
                else Board_Set_range b' d rest)
          else Board_Set_range b d rest)"
  by pat_completeness auto


subsection \<open>Termination of the propagating assignment\<close>

text \<open>
  The recursion is nested: the board handed to the rest of a loop is the result of the
  recursive call.  Every recursive call follows a \<^verbatim>\<open>Drop\<close> of a digit that was set, and
  overwrites a cell that already holds exactly the digit it is given, so the sum of the
  cell values falls.  (\<open>stray\<close> counts the visits whose pointer is not the cell of their
  coordinates; the loops of \<^verbatim>\<open>Set\<close> have none.)
\<close>

definition weight :: "Board \<Rightarrow> nat" where
  "weight b = sum_list (map unat b)"

definition stray :: "Board \<Rightarrow> visit list \<Rightarrow> nat" where
  "stray b vs = length (filter (\<lambda>(g, (x, y), c). c \<noteq> Board_At b x y) vs)"

lemma Board_At_length_cong:
  "length b' = length b \<Longrightarrow> Board_At b' x y = Board_At b x y"
  by (simp add: Board_At_def)

lemma stray_length_cong:
  "length b' = length b \<Longrightarrow> stray b' vs = stray b vs"
  by (simp add: stray_def Board_At_length_cong [of b' b])

lemma Board_At_less_length:
  "Board_At b x y = Inr k \<Longrightarrow> k < length b"
  by (auto simp: Board_At_def Let_def split: if_splits)

lemma weight_update:
  assumes "k < length b"
  shows "weight (b[k := v]) + unat (b ! k) = weight b + unat v"
proof -
  have "unat (b ! k) \<le> sum_list (map unat b)"
    using assms by (intro member_le_sum_list) auto
  then show ?thesis
    using assms by (simp add: weight_def map_update sum_list_update)
qed

lemma weight_Drop_less:
  assumes "k < length b" "Cell_IsSet (b ! k) d"
  shows "weight (b[k := Cell_Drop (b ! k) d]) < weight b"
  using weight_update [OF assms(1), of "Cell_Drop (b ! k) d"] unat_Cell_Drop_less [OF assms(2)]
  by simp

lemma stray_Cons:
  "stray b ((g, (x, y), c) # vs) = (if c \<noteq> Board_At b x y then 1 else 0) + stray b vs"
  by (simp add: stray_def)

lemma stray_Row [simp]:
  "stray b (map (\<lambda>(jj, c). (g jj, (i, jj), c)) (Board_Row b i)) = 0"
  by (simp add: stray_def Board_Row_def filter_empty_conv)

lemma stray_Col [simp]:
  "stray b (map (\<lambda>(ii, c). (g ii, (ii, j), c)) (Board_Col b j)) = 0"
  by (simp add: stray_def Board_Col_def filter_empty_conv)

lemma stray_Box [simp]:
  "stray b (map (Pair True) (Board_Box b i j)) = 0"
  by (auto simp: stray_def Board_Box_def filter_empty_conv split: if_splits)

lemma Board_Set_partial:
  fixes R :: "Board \<Rightarrow> Board \<Rightarrow> bool"
  assumes R_refl: "\<And>b. R b b"
    and R_trans: "\<And>a b c. R a b \<Longrightarrow> R b c \<Longrightarrow> R a c"
    and R_drop: "\<And>b k d. k < length b \<Longrightarrow> Cell_IsSet (b ! k) d \<Longrightarrow> R (b[k := Cell_Drop (b ! k) d]) b"
  shows "Board_Set_Board_Set_range_dom (Inl (b, i, j, d)) \<Longrightarrow> Board_Set b i j d = Inr r \<Longrightarrow>
           length r = length b \<and>
           (\<forall>k. Board_At b i j = Inr k \<longrightarrow> R r (b[k := Cell_Set (Cell_Clear (b ! k)) d]))"
    and "Board_Set_Board_Set_range_dom (Inr (b, d, vs)) \<Longrightarrow> Board_Set_range b d vs = Inr r \<Longrightarrow>
           length r = length b \<and> (stray b vs = 0 \<longrightarrow> R r b)"
proof (induction arbitrary: r and r rule: Board_Set_Board_Set_range.pinduct)
  case (1 b i j d)
  from "1.prems" "1.hyps" obtain k b1 b2 where
    k: "Board_At b i j = Inr k"
    and b1: "Board_Set_range (b[k := Cell_Set (Cell_Clear (b ! k)) d]) d
               (map (\<lambda>(jj, c). (j \<noteq> jj, (i, jj), c)) (Board_Row b i)) = Inr b1"
    and b2: "Board_Set_range b1 d (map (\<lambda>(ii, c). (i \<noteq> ii, (ii, j), c)) (Board_Col b j)) = Inr b2"
    and r: "Board_Set_range b2 d (map (\<lambda>(xy, c). (True, xy, c)) (Board_Box b i j)) = Inr r"
    by (auto simp: Board_Set.psimps split: sum.splits)
  let ?b0 = "b[k := Cell_Set (Cell_Clear (b ! k)) d]"
  have l0: "length ?b0 = length b" by simp
  from "1.IH"(1) [OF k b1] have l1: "length b1 = length b"
    and w1: "R b1 ?b0"
    by (simp_all add: stray_length_cong [OF l0])
  from "1.IH"(2) [OF k b1 b2] have l2: "length b2 = length b"
    and w2: "R b2 b1"
    by (simp_all add: l1 stray_length_cong [OF l1])
  from "1.IH"(3) [OF k b1 b2 r] have l3: "length r = length b"
    and w3: "R r b2"
    by (simp_all add: l2 stray_length_cong [OF l2])
  from R_trans [OF w3 R_trans [OF w2 w1]] l3 k show ?case by simp
next
  case (2 b d)
  then show ?case by (simp add: Board_Set_range.psimps R_refl)
next
  case (3 b d g x y c rest)
  from "3.prems" "3.hyps" obtain k where c: "c = Inr k"
    by (auto simp: Board_Set_range.psimps split: sum.splits)
  let ?b' = "b[k := Cell_Drop (b ! k) d]"
  have l': "length ?b' = length b" by simp
  show ?case
  proof (cases "g \<and> Cell_IsSet (b ! k) d")
    case False
    with "3.prems" "3.hyps" c have "Board_Set_range b d rest = Inr r"
      by (auto simp: Board_Set_range.psimps split: if_splits)
    from "3.IH"(4) [OF c False this] show ?thesis
      by (auto simp: stray_Cons)
  next
    case True
    show ?thesis
    proof (cases "Cell_Single (?b' ! k)")
      case False
      with "3.prems" "3.hyps" c True have "Board_Set_range ?b' d rest = Inr r"
        by (simp add: Board_Set_range.psimps Let_def)
      from "3.IH"(3) [OF c True refl False this]
      have lr: "length r = length b" and wr: "stray ?b' rest = 0 \<longrightarrow> R r ?b'"
        by simp_all
      show ?thesis
      proof (intro conjI impI)
        show "length r = length b" by (rule lr)
        assume s: "stray b ((g, (x, y), c) # rest) = 0"
        then have "c = Board_At b x y" "stray b rest = 0"
          by (auto simp: stray_Cons split: if_splits)
        then have "k < length b" using c by (auto dest: Board_At_less_length [OF sym])
        then have "R ?b' b" using True by (intro R_drop) auto
        moreover have "R r ?b'"
          using wr \<open>stray b rest = 0\<close> by (simp add: stray_length_cong [OF l'])
        ultimately show "R r b" by (rule R_trans [rotated])
      qed
    next
      case single: True
      with "3.prems" "3.hyps" c True obtain b'' where
        b'': "Board_Set ?b' x y (Cell_Digit (?b' ! k)) = Inr b''"
        and r: "Board_Set_range b'' d rest = Inr r"
        by (auto simp: Board_Set_range.psimps Let_def split: sum.splits)
      from "3.IH"(1) [OF c True refl single b'']
      have l'': "length b'' = length b"
        and w'': "\<And>k'. Board_At ?b' x y = Inr k' \<Longrightarrow>
                   R b'' (?b'[k' := Cell_Set (Cell_Clear (?b' ! k')) (Cell_Digit (?b' ! k))])"
        by simp_all
      from "3.IH"(2) [OF c True refl single b'' r]
      have lr: "length r = length b" and wr: "stray b'' rest = 0 \<longrightarrow> R r b''"
        by (simp_all add: l'')
      show ?thesis
      proof (intro conjI impI)
        show "length r = length b" by (rule lr)
        assume s: "stray b ((g, (x, y), c) # rest) = 0"
        then have cxy: "c = Board_At b x y" and sr: "stray b rest = 0"
          by (auto simp: stray_Cons split: if_splits)
        then have kl: "k < length b" using c by (auto dest: Board_At_less_length [OF sym])
        then have 1: "R ?b' b" using True by (intro R_drop) auto
        have "Board_At ?b' x y = Inr k"
          using cxy c by (simp add: Board_At_length_cong [OF l'])
        from w'' [OF this] have 2: "R b'' ?b'"
          using kl single by (simp add: Cell_Set_Clear_Digit)
        have 3: "R r b''"
          using wr sr by (simp add: stray_length_cong [OF l''])
        from R_trans [OF 3 R_trans [OF 2 1]] show "R r b" .
      qed
    qed
  qed
qed

lemma Board_Set_partial_weight:
  shows "Board_Set_Board_Set_range_dom (Inl (b, i, j, d)) \<Longrightarrow> Board_Set b i j d = Inr r \<Longrightarrow>
           length r = length b \<and>
           (\<forall>k. Board_At b i j = Inr k \<longrightarrow> weight r \<le> weight (b[k := Cell_Set (Cell_Clear (b ! k)) d]))"
    and "Board_Set_Board_Set_range_dom (Inr (b, d, vs)) \<Longrightarrow> Board_Set_range b d vs = Inr r \<Longrightarrow>
           length r = length b \<and> (stray b vs = 0 \<longrightarrow> weight r \<le> weight b)"
proof -
  have drop: "weight (b[k := Cell_Drop (b ! k) d]) \<le> weight b"
    if "k < length b" "Cell_IsSet (b ! k) d" for b k d
    using weight_Drop_less [OF that] by simp
  show "Board_Set_Board_Set_range_dom (Inl (b, i, j, d)) \<Longrightarrow> Board_Set b i j d = Inr r \<Longrightarrow>
           length r = length b \<and>
           (\<forall>k. Board_At b i j = Inr k \<longrightarrow> weight r \<le> weight (b[k := Cell_Set (Cell_Clear (b ! k)) d]))"
    by (rule Board_Set_partial(1) [where R = "\<lambda>r b. weight r \<le> weight b"]) (auto intro: drop)
  show "Board_Set_Board_Set_range_dom (Inr (b, d, vs)) \<Longrightarrow> Board_Set_range b d vs = Inr r \<Longrightarrow>
           length r = length b \<and> (stray b vs = 0 \<longrightarrow> weight r \<le> weight b)"
    by (rule Board_Set_partial(2) [where R = "\<lambda>r b. weight r \<le> weight b"]) (auto intro: drop)
qed

definition Board_Set_measure :: "(Board \<times> int \<times> int \<times> uint) + (Board \<times> uint \<times> visit list) \<Rightarrow> nat list" where
  "Board_Set_measure a =
     (case a of
        Inl (b, i, j, d) \<Rightarrow>
          [0,
           (case Board_At b i j of Inl _ \<Rightarrow> 0
            | Inr k \<Rightarrow> weight (b[k := Cell_Set (Cell_Clear (b ! k)) d])),
           1, 0]
      | Inr (b, d, vs) \<Rightarrow> [stray b vs, weight b, 0, length vs])"

lemma lenlex4I:
  assumes "s' < s \<or> (s' = s \<and> (w' < w \<or> (w' = w \<and> (t' < t \<or> (t' = t \<and> l' < l)))))"
  shows "([s', w', t', l'], [s, w, t, l :: nat]) \<in> lenlex less_than"
  using assms by (auto simp: Cons_lenlex_iff)

lemma Board_Set_terminates: "All Board_Set_Board_Set_range_dom"
proof (relation "inv_image (lenlex less_than) Board_Set_measure", goal_cases)
  case 1
  show ?case by (simp add: wf_lenlex)
next
  case (2 b i j d k)
  have "stray (b[k := Cell_Set (Cell_Clear (b ! k)) d])
          (map (\<lambda>(jj, c). (j \<noteq> jj, (i, jj), c)) (Board_Row b i)) = 0"
    by (simp add: stray_length_cong [of "b[k := Cell_Set (Cell_Clear (b ! k)) d]" b])
  with 2 show ?case
    by (simp add: Board_Set_measure_def Cons_lenlex_iff)
next
  case (3 b i j d k b1)
  let ?b0 = "b[k := Cell_Set (Cell_Clear (b ! k)) d]"
  have s0: "stray ?b0 (map (\<lambda>(jj, c). (j \<noteq> jj, (i, jj), c)) (Board_Row b i)) = 0"
    by (simp add: stray_length_cong [of ?b0 b])
  from Board_Set_partial_weight(2) [OF 3(3) 3(2)] s0
  have l1: "length b1 = length b" and w1: "weight b1 \<le> weight ?b0" by simp_all
  have "stray b1 (map (\<lambda>(ii, c). (i \<noteq> ii, (ii, j), c)) (Board_Col b j)) = 0"
    by (simp add: stray_length_cong [OF l1])
  with 3(1) w1 show ?case
    by (auto simp: Board_Set_measure_def Cons_lenlex_iff)
next
  case (4 b i j d k b1 b2)
  let ?b0 = "b[k := Cell_Set (Cell_Clear (b ! k)) d]"
  have s0: "stray ?b0 (map (\<lambda>(jj, c). (j \<noteq> jj, (i, jj), c)) (Board_Row b i)) = 0"
    by (simp add: stray_length_cong [of ?b0 b])
  from Board_Set_partial_weight(2) [OF 4(5) 4(2)] s0
  have l1: "length b1 = length b" and w1: "weight b1 \<le> weight ?b0" by simp_all
  have s1: "stray b1 (map (\<lambda>(ii, c). (i \<noteq> ii, (ii, j), c)) (Board_Col b j)) = 0"
    by (simp add: stray_length_cong [OF l1])
  from Board_Set_partial_weight(2) [OF 4(4) 4(3)] s1 l1
  have l2: "length b2 = length b" and w2: "weight b2 \<le> weight b1" by simp_all
  have "stray b2 (map (Pair True) (Board_Box b i j)) = 0"
    by (simp add: stray_length_cong [OF l2])
  with 4(1) w1 w2 show ?case
    by (auto simp: Board_Set_measure_def Cons_lenlex_iff)
next
  case (5 b d g x y c rest k b')
  let ?b' = "b[k := Cell_Drop (b ! k) d]"
  have l': "length ?b' = length b" by simp
  show ?case
  proof (cases "stray b ((g, (x, y), c) # rest) = 0")
    case False
    then show ?thesis by (simp add: Board_Set_measure_def Cons_lenlex_iff)
  next
    case True
    then have cxy: "Board_At b x y = Inr k" using 5(1)
      by (auto simp: stray_Cons split: if_splits)
    then have kl: "k < length b" by (rule Board_At_less_length)
    have at': "Board_At ?b' x y = Inr k"
      using cxy by (simp add: Board_At_length_cong [OF l'])
    have "?b'[k := Cell_Set (Cell_Clear (?b' ! k)) (Cell_Digit (?b' ! k))] = ?b'"
      using 5(3,4) kl by (simp add: Cell_Set_Clear_Digit)
    moreover have "weight ?b' < weight b"
      using kl 5(2) by (intro weight_Drop_less) auto
    ultimately show ?thesis
      using True at' 5(3) by (simp add: Board_Set_measure_def Cons_lenlex_iff)
  qed
next
  case (6 b d g x y c rest k b' b'')
  let ?b' = "b[k := Cell_Drop (b ! k) d]"
  have l': "length ?b' = length b" by simp
  from Board_Set_partial_weight(1) [OF 6(6) [unfolded 6(3)] 6(5) [unfolded 6(3)]]
  have l'': "length b'' = length b"
    and w'': "\<And>k'. Board_At ?b' x y = Inr k' \<Longrightarrow>
               weight b'' \<le> weight (?b'[k' := Cell_Set (Cell_Clear (?b' ! k')) (Cell_Digit (?b' ! k))])"
    by (simp_all add: 6(3))
  show ?case
  proof (cases "stray b ((g, (x, y), c) # rest) = 0")
    case False
    have sr'': "stray b'' rest = stray b rest" by (rule stray_length_cong [OF l''])
    consider "stray b'' rest < stray b ((g, (x, y), c) # rest)"
      | "stray b'' rest = stray b ((g, (x, y), c) # rest)" "c = Board_At b x y"
      using sr'' by (cases "c = Board_At b x y") (simp_all add: stray_Cons)
    then show ?thesis
    proof cases
      case 1
      then show ?thesis by (simp add: Board_Set_measure_def Cons_lenlex_iff)
    next
      case 2
      then have cxy: "Board_At b x y = Inr k" using 6(1) by simp
      then have kl: "k < length b" by (rule Board_At_less_length)
      have at': "Board_At ?b' x y = Inr k"
        using cxy by (simp add: Board_At_length_cong [OF l'])
      from w'' [OF at'] have "weight b'' \<le> weight ?b'"
        using kl 6(3,4) by (simp add: Cell_Set_Clear_Digit)
      moreover have "weight ?b' < weight b"
        using kl 6(2) by (intro weight_Drop_less) auto
      ultimately show ?thesis
        using 2 by (simp add: Board_Set_measure_def Cons_lenlex_iff)
    qed
  next
    case True
    then have cxy: "Board_At b x y = Inr k" and sr: "stray b rest = 0" using 6(1)
      by (auto simp: stray_Cons split: if_splits)
    then have kl: "k < length b" by (auto dest: Board_At_less_length)
    have at': "Board_At ?b' x y = Inr k"
      using cxy by (simp add: Board_At_length_cong [OF l'])
    from w'' [OF at'] have "weight b'' \<le> weight ?b'"
      using kl 6(3,4) by (simp add: Cell_Set_Clear_Digit)
    moreover have "weight ?b' < weight b"
      using kl 6(2) by (intro weight_Drop_less) auto
    moreover have "stray b'' rest = 0"
      using sr by (simp add: stray_length_cong [OF l''])
    ultimately show ?thesis
      using True by (simp add: Board_Set_measure_def Cons_lenlex_iff)
  qed
next
  case (7 b d g x y c rest k b')
  let ?b' = "b[k := Cell_Drop (b ! k) d]"
  have l': "length ?b' = length b" by simp
  have sr: "stray ?b' rest = stray b rest" by (rule stray_length_cong [OF l'])
  show ?case
  proof (cases "c = Board_At b x y")
    case False
    then show ?thesis
      using sr 7(3) by (simp add: Board_Set_measure_def Cons_lenlex_iff stray_Cons)
  next
    case True
    then have "k < length b" using 7(1) by (auto dest: Board_At_less_length [OF sym])
    then have "weight ?b' < weight b"
      using 7(2) by (intro weight_Drop_less) auto
    then show ?thesis
      using sr True 7(3) by (simp add: Board_Set_measure_def Cons_lenlex_iff stray_Cons)
  qed
next
  case (8 b d g x y c rest k)
  then show ?case
    by (simp add: Board_Set_measure_def Cons_lenlex_iff stray_Cons)
qed

termination Board_Set
  by (rule Board_Set_terminates)

lemma Board_Set_length:
  "Board_Set b i j d = Inr r \<Longrightarrow> length r = length b"
  using Board_Set_partial_weight(1) [OF Board_Set_terminates [THEN spec]] by blast

lemma Board_Set_range_length:
  "Board_Set_range b d vs = Inr r \<Longrightarrow> length r = length b"
  using Board_Set_partial_weight(2) [OF Board_Set_terminates [THEN spec]] by blast

declare Board_Set.simps [simp del]

section \<open>The assignment as the specification describes it\<close>

text \<open>
  The specification describes the assignment as a process on the cells of the 9x9 grid:
  resolve the cell (clear it and set only the digit); then, for each peer in the row, the
  column and the box, in this order and by increasing index, remove the digit if the peer
  allows it, and if that leaves the peer with exactly one candidate, resolve the peer with
  that candidate, cascading.  The relations \<open>resolve\<close> and \<open>eliminate\<close> below are this
  description, written from its words: positions are coordinate pairs, \<open>peers\<close> lists the
  8 + 8 + 8 peers, and no operation fails.
\<close>

type_synonym pos = "int \<times> int"

definition valid :: "pos \<Rightarrow> bool" where
  "valid p = (0 \<le> fst p \<and> fst p < 9 \<and> 0 \<le> snd p \<and> snd p < 9)"

definition idx :: "pos \<Rightarrow> nat" where
  "idx p = nat (fst p * 9 + snd p)"

definition row_peers :: "pos \<Rightarrow> pos list" where
  "row_peers p = map (\<lambda>c. (fst p, c)) (filter (\<lambda>c. c \<noteq> snd p) [0..8])"

definition col_peers :: "pos \<Rightarrow> pos list" where
  "col_peers p = map (\<lambda>r. (r, snd p)) (filter (\<lambda>r. r \<noteq> fst p) [0..8])"

definition box_peers :: "pos \<Rightarrow> pos list" where
  "box_peers p =
     filter (\<lambda>q. q \<noteq> p)
       (concat (map (\<lambda>r. map (\<lambda>c. (r, c)) [3 * (snd p div 3) .. 3 * (snd p div 3) + 2])
          [3 * (fst p div 3) .. 3 * (fst p div 3) + 2]))"

definition peers :: "pos \<Rightarrow> pos list" where
  "peers p = row_peers p @ col_peers p @ box_peers p"

inductive resolve :: "Board \<Rightarrow> pos \<Rightarrow> uint \<Rightarrow> Board \<Rightarrow> bool"
  and eliminate :: "Board \<Rightarrow> uint \<Rightarrow> pos list \<Rightarrow> Board \<Rightarrow> bool"
where
  resolve:
    "eliminate (b[idx p := Cell_Set (Cell_Clear (b ! idx p)) d]) d (peers p) r \<Longrightarrow>
     resolve b p d r"
| elim_nil: "eliminate b d [] b"
| elim_keep:
    "\<not> Cell_IsSet (b ! idx q) d \<Longrightarrow> eliminate b d qs r \<Longrightarrow>
     eliminate b d (q # qs) r"
| elim_drop:
    "Cell_IsSet (b ! idx q) d \<Longrightarrow> b' = b[idx q := Cell_Drop (b ! idx q) d] \<Longrightarrow>
     \<not> Cell_Single (b' ! idx q) \<Longrightarrow> eliminate b' d qs r \<Longrightarrow>
     eliminate b d (q # qs) r"
| elim_force:
    "Cell_IsSet (b ! idx q) d \<Longrightarrow> b' = b[idx q := Cell_Drop (b ! idx q) d] \<Longrightarrow>
     Cell_Single (b' ! idx q) \<Longrightarrow> resolve b' q (Cell_Digit (b' ! idx q)) b'' \<Longrightarrow>
     eliminate b'' d qs r \<Longrightarrow>
     eliminate b d (q # qs) r"

text \<open>
  To compare the loops of the code with the description: the positions a list of visits
  really acts on, and the visits as the iterators produce them on a board of 81 cells.
\<close>

definition targets :: "visit list \<Rightarrow> pos list" where
  "targets vs = map (\<lambda>(g, q, c). q) (filter (\<lambda>(g, q, c). g) vs)"

definition lawful :: "visit list \<Rightarrow> bool" where
  "lawful vs = (\<forall>(g, q, c) \<in> set vs. valid q \<and> c = Inr (idx q))"

lemma Board_At_valid:
  "length b = 81 \<Longrightarrow> valid (x, y) \<Longrightarrow> Board_At b x y = Inr (idx (x, y))"
  by (auto simp: Board_At_def valid_def idx_def Size_def)

lemma range_Size: "map int [0..<Size] = [0..8]"
  by code_simp

lemma set_0_8: "set [0..8::int] = {0..8}"
  by simp

lemma quo_3: "0 \<le> a \<Longrightarrow> quo a 3 = a div 3"
  by (cases "a = 0") (simp_all add: quo_def)

lemma targets_map: "targets (map (\<lambda>j. (g j, q j, c j)) xs) = map q (filter g xs)"
  by (induction xs) (simp_all add: targets_def)

lemma lawful_map:
  "lawful (map (\<lambda>j. (g j, q j, c j)) xs) \<longleftrightarrow> (\<forall>j \<in> set xs. valid (q j) \<and> c j = Inr (idx (q j)))"
  by (auto simp: lawful_def)

lemma Row_visits:
  "map (\<lambda>(jj, c). (j \<noteq> jj, (i, jj), c)) (Board_Row b i) =
   map (\<lambda>jj. (jj \<noteq> j, (i, jj), Board_At b i jj)) [0..8]"
  unfolding Board_Row_def range_Size by (simp add: comp_def eq_commute del: upto.simps)

lemma Col_visits:
  "map (\<lambda>(ii, c). (i \<noteq> ii, (ii, j), c)) (Board_Col b j) =
   map (\<lambda>ii. (ii \<noteq> i, (ii, j), Board_At b ii j)) [0..8]"
  unfolding Board_Col_def range_Size by (simp add: comp_def eq_commute del: upto.simps)

lemma lawful_Row:
  "length b = 81 \<Longrightarrow> valid (i, j) \<Longrightarrow> lawful (map (\<lambda>(jj, c). (j \<noteq> jj, (i, jj), c)) (Board_Row b i))"
  unfolding Row_visits lawful_map set_0_8
  by (auto simp: Board_At_valid valid_def)

lemma targets_Row:
  "targets (map (\<lambda>(jj, c). (j \<noteq> jj, (i, jj), c)) (Board_Row b i)) = row_peers (i, j)"
  unfolding Row_visits targets_map by (simp add: row_peers_def del: upto.simps)

lemma lawful_Col:
  "length b = 81 \<Longrightarrow> valid (i, j) \<Longrightarrow> lawful (map (\<lambda>(ii, c). (i \<noteq> ii, (ii, j), c)) (Board_Col b j))"
  unfolding Col_visits lawful_map set_0_8
  by (auto simp: Board_At_valid valid_def)

lemma targets_Col:
  "targets (map (\<lambda>(ii, c). (i \<noteq> ii, (ii, j), c)) (Board_Col b j)) = col_peers (i, j)"
  unfolding Col_visits targets_map by (simp add: col_peers_def del: upto.simps)

subsection \<open>The code carries out the described process\<close>

lemma Box_scan:
  "map fst (concat (map (\<lambda>x. concat (map (\<lambda>y. if x = i \<and> y = j then [] else [((x, y), f x y)]) ys)) xs))
   = filter (\<lambda>q. q \<noteq> (i, j)) (concat (map (\<lambda>x. map (\<lambda>y. (x, y)) ys) xs))"
proof (induction xs)
  case Nil
  show ?case by simp
next
  case (Cons x xs)
  have "map fst (concat (map (\<lambda>y. if x = i \<and> y = j then [] else [((x, y), f x y)]) ys))
        = filter (\<lambda>q. q \<noteq> (i, j)) (map (\<lambda>y. (x, y)) ys)"
    by (induction ys) auto
  with Cons show ?case by simp
qed

lemma targets_True: "targets (map (Pair True) vs) = map fst vs"
  by (induction vs) (auto simp: targets_def)

lemma lawful_True:
  "lawful (map (Pair True) vs) \<longleftrightarrow> (\<forall>(q, c) \<in> set vs. valid q \<and> c = Inr (idx q))"
  by (auto simp: lawful_def)

lemma targets_Box:
  assumes "valid (i, j)"
  shows "targets (map (\<lambda>(xy, c). (True, xy, c)) (Board_Box b i j)) = box_peers (i, j)"
proof -
  from assms have q: "quo i 3 * 3 = 3 * (i div 3)" "quo j 3 * 3 = 3 * (j div 3)"
    by (simp_all add: valid_def quo_3)
  have "targets (map (Pair True) (Board_Box b i j)) = map fst (Board_Box b i j)"
    by (rule targets_True)
  also have "\<dots> = box_peers (i, j)"
    unfolding Board_Box_def box_peers_def Box_scan q by (simp add: add.commute del: upto.simps)
  finally show ?thesis by simp
qed

lemma targets_Box':
  "valid (i, j) \<Longrightarrow> targets (map (Pair True) (Board_Box b i j)) = box_peers (i, j)"
  using targets_Box [of i j b] by simp

lemma lawful_Box:
  assumes "length b = 81" "valid (i, j)"
  shows "lawful (map (\<lambda>(xy, c). (True, xy, c)) (Board_Box b i j))"
proof -
  from assms have q: "quo i 3 * 3 = 3 * (i div 3)" "quo j 3 * 3 = 3 * (j div 3)"
    by (simp_all add: valid_def quo_3)
  have "valid q \<and> c = Inr (idx q)" if "(q, c) \<in> set (Board_Box b i j)" for q c
  proof -
    from that obtain x y where xy: "q = (x, y)" "c = Board_At b x y"
      "3 * (i div 3) \<le> x" "x \<le> 3 * (i div 3) + 2" "3 * (j div 3) \<le> y" "y \<le> 3 * (j div 3) + 2"
      unfolding Board_Box_def q by (auto split: if_splits)
    moreover from assms(2) have "0 \<le> i div 3" "i div 3 \<le> 2" "0 \<le> j div 3" "j div 3 \<le> 2"
      unfolding valid_def by simp_all presburger+
    ultimately have "valid (x, y)" unfolding valid_def by simp
    with xy assms(1) show ?thesis by (simp add: Board_At_valid)
  qed
  then have "lawful (map (Pair True) (Board_Box b i j))"
    unfolding lawful_True by blast
  then show ?thesis by simp
qed

lemma eliminate_append:
  "eliminate b d qs r \<Longrightarrow> eliminate r d qs' r' \<Longrightarrow> eliminate b d (qs @ qs') r'"
  by (induction b d qs r rule: resolve_eliminate.inducts(2) [where ?P1.0 = "\<lambda>_ _ _ _. True"])
    (auto intro: resolve_eliminate.intros)

lemma lawful_Cons:
  "lawful ((g, q, c) # vs) \<longleftrightarrow> valid q \<and> c = Inr (idx q) \<and> lawful vs"
  by (auto simp: lawful_def)

lemma targets_Cons:
  "targets ((g, q, c) # vs) = (if g then q # targets vs else targets vs)"
  by (simp add: targets_def)

lemma Board_Set_resolve:
  shows "length b = 81 \<Longrightarrow> valid (i, j) \<Longrightarrow>
           \<exists>r. Board_Set b i j d = Inr r \<and> resolve b (i, j) d r"
    and "length b = 81 \<Longrightarrow> lawful vs \<Longrightarrow>
           \<exists>r. Board_Set_range b d vs = Inr r \<and> eliminate b d (targets vs) r"
proof (induction b i j d and b d vs rule: Board_Set_Board_Set_range.induct)
  case (1 b i j d)
  let ?k = "idx (i, j)"
  let ?b0 = "b[?k := Cell_Set (Cell_Clear (b ! ?k)) d]"
  let ?rows = "map (\<lambda>(jj, c). (j \<noteq> jj, (i, jj), c)) (Board_Row b i)"
  let ?cols = "map (\<lambda>(ii, c). (i \<noteq> ii, (ii, j), c)) (Board_Col b j)"
  let ?box = "map (\<lambda>(xy, c). (True, xy, c)) (Board_Box b i j)"
  have at: "Board_At b i j = Inr ?k"
    using "1.prems" by (rule Board_At_valid)
  have l0: "length ?b0 = 81" using "1.prems"(1) by simp
  from "1.IH"(1) [OF at l0 lawful_Row [OF "1.prems"]]
  obtain b1 where b1: "Board_Set_range ?b0 d ?rows = Inr b1"
    and e1: "eliminate ?b0 d (row_peers (i, j)) b1"
    by (auto simp: targets_Row)
  have l1: "length b1 = 81" using Board_Set_range_length [OF b1] l0 by simp
  from "1.IH"(2) [OF at b1 l1 lawful_Col [OF "1.prems"]]
  obtain b2 where b2: "Board_Set_range b1 d ?cols = Inr b2"
    and e2: "eliminate b1 d (col_peers (i, j)) b2"
    by (auto simp: targets_Col)
  have l2: "length b2 = 81" using Board_Set_range_length [OF b2] l1 by simp
  from "1.IH"(3) [OF at b1 b2 l2 lawful_Box [OF "1.prems"]]
  obtain r where r: "Board_Set_range b2 d ?box = Inr r"
    and e3: "eliminate b2 d (box_peers (i, j)) r"
    by (auto simp: targets_Box' [OF "1.prems"(2)])
  have "eliminate ?b0 d (peers (i, j)) r"
    unfolding peers_def by (intro eliminate_append [OF e1] eliminate_append [OF e2] e3)
  then have "resolve b (i, j) d r"
    by (intro resolve_eliminate.resolve) simp
  moreover have "Board_Set b i j d = Inr r"
    using b1 b2 r by (subst Board_Set.simps) (simp add: at)
  ultimately show ?case by blast
next
  case (2 b d)
  show ?case by (auto simp: targets_def intro: resolve_eliminate.intros)
next
  case (3 b d g x y c rest)
  from "3.prems"(2) have v: "valid (x, y)" and c: "c = Inr (idx (x, y))" and lr: "lawful rest"
    by (simp_all add: lawful_Cons)
  let ?k = "idx (x, y)"
  let ?b' = "b[?k := Cell_Drop (b ! ?k) d]"
  have l': "length ?b' = 81" using "3.prems"(1) by simp
  show ?case
  proof (cases "g \<and> Cell_IsSet (b ! ?k) d")
    case False
    from "3.IH"(4) [OF c False "3.prems"(1) lr]
    obtain r where r: "Board_Set_range b d rest = Inr r" and e: "eliminate b d (targets rest) r"
      by blast
    have "Board_Set_range b d ((g, (x, y), c) # rest) = Inr r"
      using False r c by auto
    moreover have "eliminate b d (targets ((g, (x, y), c) # rest)) r"
      using False e by (auto simp: targets_Cons intro: elim_keep)
    ultimately show ?thesis by blast
  next
    case True
    show ?thesis
    proof (cases "Cell_Single (?b' ! ?k)")
      case False
      from "3.IH"(3) [OF c True refl False l' lr]
      obtain r where r: "Board_Set_range ?b' d rest = Inr r" and e: "eliminate ?b' d (targets rest) r"
        by blast
      have "Board_Set_range b d ((g, (x, y), c) # rest) = Inr r"
        using True False r c by (simp add: Let_def)
      moreover have "eliminate b d (targets ((g, (x, y), c) # rest)) r"
        using True False e by (auto simp: targets_Cons intro: elim_drop)
      ultimately show ?thesis by blast
    next
      case single: True
      from "3.IH"(1) [OF c True refl single l' v]
      obtain b'' where b'': "Board_Set ?b' x y (Cell_Digit (?b' ! ?k)) = Inr b''"
        and rs: "resolve ?b' (x, y) (Cell_Digit (?b' ! ?k)) b''"
        by blast
      have l'': "length b'' = 81" using Board_Set_length [OF b''] l' by simp
      from "3.IH"(2) [OF c True refl single b'' l'' lr]
      obtain r where r: "Board_Set_range b'' d rest = Inr r" and e: "eliminate b'' d (targets rest) r"
        by blast
      have "Board_Set_range b d ((g, (x, y), c) # rest) = Inr r"
        using True single b'' r c by (simp add: Let_def)
      moreover have "eliminate b d (targets ((g, (x, y), c) # rest)) r"
        using True single rs e by (auto simp: targets_Cons intro: elim_force)
      ultimately show ?thesis by blast
    qed
  qed
qed

subsection \<open>The described process determines its result\<close>

inductive_cases resolveE: "resolve b p d r"
inductive_cases eliminate_NilE: "eliminate b d [] r"
inductive_cases eliminate_ConsE: "eliminate b d (q # qs) r"

lemma resolve_eliminate_deterministic:
  shows "resolve b p d r \<Longrightarrow> resolve b p d r' \<Longrightarrow> r' = r"
    and "eliminate b d qs r \<Longrightarrow> eliminate b d qs r' \<Longrightarrow> r' = r"
proof (induction arbitrary: r' and r' rule: resolve_eliminate.inducts)
  case (resolve b p d r)
  from resolve.prems show ?case
    by (rule resolveE) (rule resolve.IH)
next
  case (elim_nil b d)
  then show ?case by (auto elim: eliminate_NilE)
next
  case (elim_keep b q d qs r)
  from elim_keep.prems elim_keep.hyps(1) show ?case
    by (auto elim!: eliminate_ConsE intro: elim_keep.IH)
next
  case (elim_drop b q d b' qs r)
  from elim_drop.prems elim_drop.hyps(1,2,3) show ?case
    by (auto elim!: eliminate_ConsE intro: elim_drop.IH)
next
  case (elim_force b q d b' b'' qs r)
  from elim_force.prems show ?case
  proof (rule eliminate_ConsE, goal_cases)
    case 1
    with elim_force.hyps(1) show ?case by simp
  next
    case 2
    with elim_force.hyps(2,3) show ?case by simp
  next
    case (3 b2)
    from 3(3) have "b2 = b''" unfolding elim_force.hyps(2) [symmetric] by (rule elim_force.IH(1))
    with 3(4) show ?case by (intro elim_force.IH(2)) simp
  qed
qed

lemma Board_Set_iff_resolve:
  assumes "length b = 81" "valid (i, j)"
  shows "Board_Set b i j d = Inr r \<longleftrightarrow> resolve b (i, j) d r"
proof -
  from Board_Set_resolve(1) [OF assms, of d]
  obtain r0 where r0: "Board_Set b i j d = Inr r0" "resolve b (i, j) d r0" by blast
  show ?thesis
  proof
    assume "Board_Set b i j d = Inr r"
    with r0 show "resolve b (i, j) d r" by simp
  next
    assume "resolve b (i, j) d r"
    with r0(2) have "r = r0" by (rule resolve_eliminate_deterministic(1))
    with r0(1) show "Board_Set b i j d = Inr r" by simp
  qed
qed

lemma Board_Set_valid:
  assumes "length b = 81" "valid (i, j)"
  obtains r where "Board_Set b i j d = Inr r" "resolve b (i, j) d r" "length r = 81"
proof -
  from Board_Set_resolve(1) [OF assms, of d] obtain r
    where r: "Board_Set b i j d = Inr r" "resolve b (i, j) d r" by blast
  moreover have "length r = 81" using Board_Set_length [OF r(1)] assms(1) by simp
  ultimately show ?thesis by (rule that)
qed

subsection \<open>The peers of a cell\<close>

definition related :: "pos \<Rightarrow> pos \<Rightarrow> bool" where
  "related p q \<longleftrightarrow>
     q \<noteq> p \<and> (fst q = fst p \<or> snd q = snd p \<or>
       (fst q div 3 = fst p div 3 \<and> snd q div 3 = snd p div 3))"

lemma set_row_peers: "set (row_peers p) = {q. fst q = fst p \<and> 0 \<le> snd q \<and> snd q \<le> 8 \<and> snd q \<noteq> snd p}"
  by (auto simp: row_peers_def)

lemma set_col_peers: "set (col_peers p) = {q. snd q = snd p \<and> 0 \<le> fst q \<and> fst q \<le> 8 \<and> fst q \<noteq> fst p}"
  by (auto simp: col_peers_def)

lemma box_range: "3 * (a div 3) \<le> x \<and> x \<le> 3 * (a div 3) + 2 \<longleftrightarrow> x div 3 = a div 3" for a x :: int
  by presburger

lemma set_grid: "set (concat (map (\<lambda>r. map (\<lambda>c. (r, c)) cs) rs)) = set rs \<times> set cs"
  by auto

lemma set_box_peers: "set (box_peers p) = {q. q \<noteq> p \<and> fst q div 3 = fst p div 3 \<and> snd q div 3 = snd p div 3}"
  unfolding box_peers_def set_filter set_grid
  by (auto simp: box_range [symmetric])

lemma valid_div3: "0 \<le> a \<and> a < 9 \<Longrightarrow> x div 3 = a div 3 \<Longrightarrow> 0 \<le> x \<and> x < 9" for a x :: int
  by presburger

lemma set_peers:
  assumes "valid p"
  shows "set (peers p) = {q. valid q \<and> related p q}"
proof (intro set_eqI iffI)
  fix q assume "q \<in> set (peers p)"
  then consider "q \<in> set (row_peers p)" | "q \<in> set (col_peers p)" | "q \<in> set (box_peers p)"
    by (auto simp: peers_def)
  then show "q \<in> {q. valid q \<and> related p q}"
  proof cases
    case 1
    with assms show ?thesis
      by (simp add: set_row_peers valid_def related_def prod_eq_iff)
  next
    case 2
    with assms show ?thesis
      by (simp add: set_col_peers valid_def related_def prod_eq_iff)
  next
    case 3
    then have "q \<noteq> p" "fst q div 3 = fst p div 3" "snd q div 3 = snd p div 3"
      by (simp_all add: set_box_peers)
    moreover from this assms have "valid q"
      using valid_div3 [of "fst p" "fst q"] valid_div3 [of "snd p" "snd q"]
      by (simp add: valid_def)
    ultimately show ?thesis by (simp add: related_def)
  qed
next
  fix q assume "q \<in> {q. valid q \<and> related p q}"
  then have v: "valid q" and n: "q \<noteq> p"
    and r: "fst q = fst p \<or> snd q = snd p \<or> (fst q div 3 = fst p div 3 \<and> snd q div 3 = snd p div 3)"
    by (simp_all add: related_def)
  from r consider "fst q = fst p" | "snd q = snd p"
    | "fst q div 3 = fst p div 3 \<and> snd q div 3 = snd p div 3" by blast
  then show "q \<in> set (peers p)"
  proof cases
    case 1
    with n have "snd q \<noteq> snd p" by (simp add: prod_eq_iff)
    with 1 v have "q \<in> set (row_peers p)" by (simp add: set_row_peers valid_def)
    then show ?thesis by (simp add: peers_def)
  next
    case 2
    with n have "fst q \<noteq> fst p" by (simp add: prod_eq_iff)
    with 2 v have "q \<in> set (col_peers p)" by (simp add: set_col_peers valid_def)
    then show ?thesis by (simp add: peers_def)
  next
    case 3
    with n have "q \<in> set (box_peers p)" by (simp add: set_box_peers)
    then show ?thesis by (simp add: peers_def)
  qed
qed

lemma related_sym: "related p q \<longleftrightarrow> related q p"
  by (auto simp: related_def)

lemma peers_valid: "valid p \<Longrightarrow> q \<in> set (peers p) \<Longrightarrow> valid q"
  by (simp add: set_peers)

lemma peers_neq: "valid p \<Longrightarrow> q \<in> set (peers p) \<Longrightarrow> q \<noteq> p"
  by (simp add: set_peers related_def)

lemma peers_sym: "valid p \<Longrightarrow> q \<in> set (peers p) \<Longrightarrow> p \<in> set (peers q)"
  using related_sym by (simp add: set_peers)

lemma idx_less: "valid p \<Longrightarrow> idx p < 81"
  by (auto simp: valid_def idx_def)

lemma idx_inj:
  assumes "valid p" "valid q"
  shows "idx p = idx q \<longleftrightarrow> p = q"
proof
  assume "idx p = idx q"
  moreover from assms have "0 \<le> fst p * 9 + snd p" "0 \<le> fst q * 9 + snd q"
    by (simp_all add: valid_def)
  ultimately have "fst p * 9 + snd p = fst q * 9 + snd q"
    by (simp add: idx_def)
  with assms have "fst p = fst q \<and> snd p = snd q"
    unfolding valid_def by presburger
  then show "p = q" by (simp add: prod_eq_iff)
qed simp

section \<open>What an assignment does to the board\<close>

definition narrows :: "Board \<Rightarrow> Board \<Rightarrow> bool" where
  "narrows r b \<longleftrightarrow>
     length r = length b \<and> (\<forall>m < length b. \<forall>e. Cell_IsSet (r ! m) e \<longrightarrow> Cell_IsSet (b ! m) e)"

lemma narrows_refl [simp]: "narrows b b"
  by (simp add: narrows_def)

lemma narrows_trans: "narrows r b' \<Longrightarrow> narrows b' b \<Longrightarrow> narrows r b"
  by (simp add: narrows_def)

lemma narrows_Drop: "narrows (b[k := Cell_Drop (b ! k) d]) b"
  by (cases "k < length b") (auto simp: narrows_def nth_list_update Cell_IsSet_Drop split: if_splits)

lemma narrows_length: "narrows r b \<Longrightarrow> length r = length b"
  by (simp add: narrows_def)

lemma narrows_IsSet:
  "narrows r b \<Longrightarrow> m < length b \<Longrightarrow> Cell_IsSet (r ! m) e \<Longrightarrow> Cell_IsSet (b ! m) e"
  by (simp add: narrows_def)

lemma narrows_at:
  "narrows r b \<Longrightarrow> length b = 81 \<Longrightarrow> valid q \<Longrightarrow> Cell_IsSet (r ! idx q) e \<Longrightarrow>
   Cell_IsSet (b ! idx q) e"
  by (rule narrows_IsSet) (simp_all add: idx_less)

lemma single_reset:
  "Cell_Single (b ! k) \<Longrightarrow> b[k := Cell_Set (Cell_Clear (b ! k)) (Cell_Digit (b ! k))] = b"
  by (simp add: Cell_Set_Clear_Digit)

lemma resolve_eliminate_narrows:
  shows "resolve b p d r \<Longrightarrow> narrows r (b[idx p := Cell_Set (Cell_Clear (b ! idx p)) d])"
    and "eliminate b d qs r \<Longrightarrow> narrows r b"
proof (induction rule: resolve_eliminate.inducts)
  case (elim_drop b q d b' qs r)
  then show ?case using narrows_Drop narrows_trans by blast
next
  case (elim_force b q d b' b'' qs r)
  from elim_force.IH(1) elim_force.hyps(3) have "narrows b'' b'"
    by (simp add: single_reset)
  with elim_force.IH(2) have "narrows r b'" by (rule narrows_trans)
  then show ?case unfolding elim_force.hyps(2) using narrows_Drop by (rule narrows_trans)
qed simp_all

lemma eliminate_cleared:
  "eliminate b d qs r \<Longrightarrow> length b = 81 \<Longrightarrow> \<forall>q \<in> set qs. valid q \<Longrightarrow>
   \<forall>q \<in> set qs. \<not> Cell_IsSet (r ! idx q) d"
proof (induction b d qs r rule: resolve_eliminate.inducts(2) [where ?P1.0 = "\<lambda>_ _ _ _. True"])
  case (elim_keep b q d qs r)
  from \<open>eliminate b d qs r\<close> have "narrows r b" by (rule resolve_eliminate_narrows)
  with elim_keep.hyps(1) elim_keep.prems have "\<not> Cell_IsSet (r ! idx q) d"
    by (auto dest: narrows_at)
  with elim_keep.IH elim_keep.prems show ?case by simp
next
  case (elim_drop b q d b' qs r)
  have l': "length b' = 81" using elim_drop.hyps(2) elim_drop.prems(1) by simp
  from \<open>eliminate b' d qs r\<close> have "narrows r b'" by (rule resolve_eliminate_narrows)
  moreover have "\<not> Cell_IsSet (b' ! idx q) d"
    using elim_drop.hyps(2) elim_drop.prems by (simp add: idx_less Cell_IsSet_Drop)
  ultimately have "\<not> Cell_IsSet (r ! idx q) d"
    using l' elim_drop.prems(2) by (auto dest: narrows_at)
  with elim_drop.IH elim_drop.prems l' show ?case by simp
next
  case (elim_force b q d b' b'' qs r)
  have l': "length b' = 81" using elim_force.hyps(2) elim_force.prems(1) by simp
  from \<open>Cell_Single (b' ! idx q)\<close> \<open>resolve b' q (Cell_Digit (b' ! idx q)) b''\<close>
  have n'': "narrows b'' b'"
    using resolve_eliminate_narrows(1) [of b' q "Cell_Digit (b' ! idx q)" b''] by (simp add: single_reset)
  then have l'': "length b'' = 81" using l' by (simp add: narrows_def)
  from \<open>eliminate b'' d qs r\<close> have "narrows r b''" by (rule resolve_eliminate_narrows)
  with n'' have "narrows r b'" by (rule narrows_trans [rotated])
  moreover have "\<not> Cell_IsSet (b' ! idx q) d"
    using elim_force.hyps(2) elim_force.prems by (simp add: idx_less Cell_IsSet_Drop)
  ultimately have "\<not> Cell_IsSet (r ! idx q) d"
    using l' elim_force.prems(2) by (auto dest: narrows_at)
  with elim_force.IH elim_force.prems l'' show ?case by simp
qed simp_all

lemma resolve_cleared:
  assumes "resolve b p d r" "length b = 81" "valid p"
  shows "\<forall>q \<in> set (peers p). \<not> Cell_IsSet (r ! idx q) d"
  using assms(1)
proof (rule resolveE)
  assume e: "eliminate (b[idx p := Cell_Set (Cell_Clear (b ! idx p)) d]) d (peers p) r"
  show ?thesis
    using assms(2,3) by (intro eliminate_cleared [OF e]) (auto intro: peers_valid)
qed

subsection \<open>Resolved cells have been propagated\<close>

definition settled :: "Board \<Rightarrow> pos \<Rightarrow> bool" where
  "settled b p \<longleftrightarrow> (\<forall>q \<in> set (peers p). \<not> Cell_IsSet (b ! idx q) (Cell_Digit (b ! idx p)))"

definition propagated :: "Board \<Rightarrow> bool" where
  "propagated b \<longleftrightarrow> (\<forall>p. valid p \<longrightarrow> Cell_Single (b ! idx p) \<longrightarrow> settled b p)"

lemma settled_narrows:
  assumes "settled b p" "narrows r b" "r ! idx p = b ! idx p" "length b = 81" "valid p"
  shows "settled r p"
  unfolding settled_def
proof
  fix q assume q: "q \<in> set (peers p)"
  then have "valid q" using assms(5) by (auto intro: peers_valid)
  moreover from assms(1) q have "\<not> Cell_IsSet (b ! idx q) (Cell_Digit (b ! idx p))"
    by (simp add: settled_def)
  ultimately show "\<not> Cell_IsSet (r ! idx q) (Cell_Digit (r ! idx p))"
    using assms(2,3,4) by (auto dest: narrows_at)
qed

lemma resolve_narrows_single:
  assumes "resolve b q (Cell_Digit (b ! idx q)) r" "Cell_Single (b ! idx q)"
  shows "narrows r b"
  using resolve_eliminate_narrows(1) [OF assms(1)] assms(2) by (simp add: single_reset)

lemma resolve_eliminate_settles:
  shows "resolve b p d r \<Longrightarrow> length b = 81 \<Longrightarrow> valid p \<Longrightarrow>
           (\<forall>p'. valid p' \<and> Cell_Single (r ! idx p') \<and>
                 r ! idx p' \<noteq> b[idx p := Cell_Set (Cell_Clear (b ! idx p)) d] ! idx p' \<longrightarrow> settled r p')"
    and "eliminate b d qs r \<Longrightarrow> length b = 81 \<Longrightarrow> \<forall>q \<in> set qs. valid q \<Longrightarrow>
           (\<forall>p'. valid p' \<and> Cell_Single (r ! idx p') \<and> r ! idx p' \<noteq> b ! idx p' \<longrightarrow> settled r p')"
proof (induction rule: resolve_eliminate.inducts)
  case (resolve b p d r)
  have "\<forall>q \<in> set (peers p). valid q" using resolve.prems(2) by (auto intro: peers_valid)
  moreover have "length (b[idx p := Cell_Set (Cell_Clear (b ! idx p)) d]) = 81"
    using resolve.prems(1) by simp
  ultimately show ?case by (intro resolve.IH)
next
  case (elim_nil b d)
  show ?case by simp
next
  case (elim_keep b q d qs r)
  have "\<forall>q \<in> set qs. valid q" using elim_keep.prems(2) by simp
  from elim_keep.IH [OF elim_keep.prems(1) this] show ?case .
next
  case (elim_drop b q d b' qs r)
  have l': "length b' = 81" using elim_drop.hyps(2) elim_drop.prems(1) by simp
  have vq: "valid q" using elim_drop.prems(2) by simp
  have "\<forall>q \<in> set qs. valid q" using elim_drop.prems(2) by simp
  from elim_drop.IH [OF l' this]
  have IH: "\<And>p'. valid p' \<Longrightarrow> Cell_Single (r ! idx p') \<Longrightarrow> r ! idx p' \<noteq> b' ! idx p' \<Longrightarrow> settled r p'"
    by blast
  show ?case
  proof (intro allI impI, elim conjE)
    fix p' assume p': "valid p'" "Cell_Single (r ! idx p')" "r ! idx p' \<noteq> b ! idx p'"
    show "settled r p'"
    proof (cases "r ! idx p' = b' ! idx p'")
      case False
      with p' show ?thesis by (intro IH)
    next
      case True
      with p'(3) have "b' ! idx p' \<noteq> b ! idx p'" by simp
      then have "idx p' = idx q" unfolding elim_drop.hyps(2)
        by (cases "idx p' = idx q") simp_all
      with True p'(2) elim_drop.hyps(3) show ?thesis by simp
    qed
  qed
next
  case (elim_force b q d b' b'' qs r)
  have l': "length b' = 81" using elim_force.hyps(2) elim_force.prems(1) by simp
  have vq: "valid q" using elim_force.prems(2) by simp
  have n'': "narrows b'' b'"
    using \<open>resolve b' q (Cell_Digit (b' ! idx q)) b''\<close> \<open>Cell_Single (b' ! idx q)\<close>
    by (rule resolve_narrows_single)
  then have l'': "length b'' = 81" using l' by (simp add: narrows_def)
  have nr: "narrows r b''"
    using \<open>eliminate b'' d qs r\<close> by (rule resolve_eliminate_narrows)
  have eq: "b'[idx q := Cell_Set (Cell_Clear (b' ! idx q)) (Cell_Digit (b' ! idx q))] = b'"
    using \<open>Cell_Single (b' ! idx q)\<close> by (rule single_reset)
  from elim_force.IH(1) [OF l' vq]
  have IH1: "\<And>p'. valid p' \<Longrightarrow> Cell_Single (b'' ! idx p') \<Longrightarrow> b'' ! idx p' \<noteq> b' ! idx p' \<Longrightarrow> settled b'' p'"
    unfolding eq by blast
  have "\<forall>q \<in> set qs. valid q" using elim_force.prems(2) by simp
  from elim_force.IH(2) [OF l'' this]
  have IH2: "\<And>p'. valid p' \<Longrightarrow> Cell_Single (r ! idx p') \<Longrightarrow> r ! idx p' \<noteq> b'' ! idx p' \<Longrightarrow> settled r p'"
    by blast
  show ?case
  proof (intro allI impI, elim conjE)
    fix p' assume p': "valid p'" "Cell_Single (r ! idx p')" "r ! idx p' \<noteq> b ! idx p'"
    show "settled r p'"
    proof (cases "r ! idx p' = b'' ! idx p'")
      case False
      with p' show ?thesis by (intro IH2)
    next
      case same: True
      have "settled b'' p'"
      proof (cases "b'' ! idx p' = b' ! idx p'")
        case False
        with p' same show ?thesis by (intro IH1) simp_all
      next
        case True
        with same p'(3) have "b' ! idx p' \<noteq> b ! idx p'" by simp
        then have "idx p' = idx q" unfolding elim_force.hyps(2)
          by (cases "idx p' = idx q") simp_all
        with p'(1) vq have "p' = q" by (simp add: idx_inj)
        moreover have "\<forall>q' \<in> set (peers q). \<not> Cell_IsSet (b'' ! idx q') (Cell_Digit (b' ! idx q))"
          using \<open>resolve b' q (Cell_Digit (b' ! idx q)) b''\<close> l' vq by (rule resolve_cleared)
        ultimately show ?thesis using True by (simp add: settled_def)
      qed
      then show ?thesis using nr same l'' p'(1) by (rule settled_narrows)
    qed
  qed
qed

lemma Cell_Digit_Set_Clear:
  assumes "Cell_Single (Cell_Set (Cell_Clear c) d)"
  shows "Cell_Digit (Cell_Set (Cell_Clear c) d) = d"
proof -
  from assms have "Cell_Set (Cell_Clear c) d \<noteq> 0" by auto
  then have "Cell_IsSet (Cell_Set (Cell_Clear c) d) (Cell_Digit (Cell_Set (Cell_Clear c) d))"
    by (rule Cell_IsSet_Digit)
  then show ?thesis by (simp add: Cell_IsSet_Set_Clear)
qed

lemma resolve_propagated:
  assumes "resolve b p d r" "length b = 81" "valid p" "propagated b"
  shows "propagated r"
  unfolding propagated_def
proof (intro allI impI)
  let ?b0 = "b[idx p := Cell_Set (Cell_Clear (b ! idx p)) d]"
  have l0: "length ?b0 = 81" using assms(2) by simp
  have n: "narrows r ?b0" using assms(1) by (rule resolve_eliminate_narrows)
  have cl: "\<forall>q \<in> set (peers p). \<not> Cell_IsSet (r ! idx q) d"
    using assms(1,2,3) by (rule resolve_cleared)
  fix p' assume p': "valid p'" "Cell_Single (r ! idx p')"
  show "settled r p'"
  proof (cases "r ! idx p' = ?b0 ! idx p'")
    case False
    with resolve_eliminate_settles(1) [OF assms(1,2,3)] p' show ?thesis by blast
  next
    case same: True
    show ?thesis
    proof (cases "p' = p")
      case True
      with same p'(2) assms(2,3) have "Cell_Digit (r ! idx p) = d"
        by (simp add: idx_less Cell_Digit_Set_Clear)
      with cl True show ?thesis by (simp add: settled_def)
    next
      case False
      with p'(1) assms(3) have ne: "idx p' \<noteq> idx p" by (simp add: idx_inj)
      with same have rb: "r ! idx p' = b ! idx p'" by simp
      with p' assms(4) have sb: "settled b p'" unfolding propagated_def by metis
      show ?thesis
        unfolding settled_def
      proof
        fix q assume q: "q \<in> set (peers p')"
        then have vq: "valid q" using p'(1) by (auto intro: peers_valid)
        show "\<not> Cell_IsSet (r ! idx q) (Cell_Digit (r ! idx p'))"
        proof
          assume hasd: "Cell_IsSet (r ! idx q) (Cell_Digit (r ! idx p'))"
          from hasd have is0: "Cell_IsSet (?b0 ! idx q) (Cell_Digit (r ! idx p'))"
            using n l0 vq by (auto dest: narrows_at)
          show False
          proof (cases "q = p")
            case False
            with vq assms(3) have "idx q \<noteq> idx p" by (simp add: idx_inj)
            with is0 have "Cell_IsSet (b ! idx q) (Cell_Digit (b ! idx p'))" by (simp add: rb)
            with sb q show False by (simp add: settled_def)
          next
            case True
            with is0 assms(2,3) have "Cell_Digit (r ! idx p') = d"
              by (simp add: idx_less Cell_IsSet_Set_Clear)
            moreover from q True p'(1) have "p' \<in> set (peers p)" by (auto intro: peers_sym)
            with cl have "\<not> Cell_IsSet (r ! idx p') d" by simp
            moreover from p'(2) have "Cell_IsSet (r ! idx p') (Cell_Digit (r ! idx p'))"
              by (simp add: Cell_Single_IsSet_iff)
            ultimately show False by simp
          qed
        qed
      qed
    qed
  qed
qed

lemma propagated_distinct:
  assumes "propagated b" "valid p" "valid q" "related p q"
    and "Cell_Single (b ! idx p)" "Cell_Single (b ! idx q)"
  shows "Cell_Digit (b ! idx p) \<noteq> Cell_Digit (b ! idx q)"
proof
  assume eq: "Cell_Digit (b ! idx p) = Cell_Digit (b ! idx q)"
  from assms(1,2,5) have "settled b p" unfolding propagated_def by blast
  moreover have "q \<in> set (peers p)" using assms(2,3,4) by (simp add: set_peers)
  ultimately have "\<not> Cell_IsSet (b ! idx q) (Cell_Digit (b ! idx p))"
    by (simp add: settled_def)
  moreover have "Cell_IsSet (b ! idx q) (Cell_Digit (b ! idx q))"
    using assms(6) by (simp add: Cell_Single_IsSet_iff)
  ultimately show False using eq by simp
qed

section \<open>Choosing a cell and searching\<close>

text \<open>
  \<^verbatim>\<open>Lowest\<close> and \<^verbatim>\<open>Solved\<close> scan the cells with two nested loops, rows outside; the
  scans are modelled over the list of the coordinates in that order.  \<^verbatim>\<open>Lowest\<close> keeps
  \<open>(lowest, i, j, ok)\<close>, starting from \<open>(Size + 1, 0, 0, false)\<close>; \<^verbatim>\<open>Solved\<close> returns
  false at the first cell that is not Single.
\<close>

definition Board_cells :: "(int \<times> int) list" where
  "Board_cells = concat (map (\<lambda>ii. map (\<lambda>jj. (ii, jj)) (map int [0..<Size])) (map int [0..<Size]))"

fun Board_Lowest_scan ::
  "Board \<Rightarrow> (int \<times> int) list \<Rightarrow> int \<times> int \<times> int \<times> bool \<Rightarrow> error + int \<times> int \<times> int \<times> bool"
where
  "Board_Lowest_scan b [] st = Inr st"
| "Board_Lowest_scan b ((ii, jj) # rest) (lowest, i, j, ok) =
     (case Board_At b ii jj of
        Inl e \<Rightarrow> Inl e
      | Inr k \<Rightarrow>
          (let c = Cell_Count (b ! k)
           in if 1 < c \<and> c < lowest then Board_Lowest_scan b rest (c, ii, jj, True)
              else Board_Lowest_scan b rest (lowest, i, j, ok)))"

definition Board_Lowest :: "Board \<Rightarrow> error + int \<times> int \<times> bool" where
  "Board_Lowest b =
     (case Board_Lowest_scan b Board_cells (int Size + 1, 0, 0, False) of
        Inl e \<Rightarrow> Inl e
      | Inr (lowest, i, j, ok) \<Rightarrow> Inr (i, j, ok))"

fun Board_Solved_scan :: "Board \<Rightarrow> (int \<times> int) list \<Rightarrow> error + bool" where
  "Board_Solved_scan b [] = Inr True"
| "Board_Solved_scan b ((i, j) # rest) =
     (case Board_At b i j of
        Inl e \<Rightarrow> Inl e
      | Inr k \<Rightarrow> if \<not> Cell_Single (b ! k) then Inr False else Board_Solved_scan b rest)"

definition Board_Solved :: "Board \<Rightarrow> error + bool" where
  "Board_Solved b = Board_Solved_scan b Board_cells"

text \<open>
  \<^verbatim>\<open>Solve\<close>: ask \<^verbatim>\<open>Lowest\<close> for a cell; without one, answer \<^verbatim>\<open>Solved()\<close>; otherwise
  try the candidates of the cell in ascending order (the sequence \<^verbatim>\<open>Digits()\<close> of the
  cell's value when the loop starts): copy the board, assign, recurse, return true on
  success, and restore the copy before the next candidate.  \<open>Board_Solve_guess\<close> is the
  loop over the remaining candidates.  The result is the answer and the board as the call
  leaves it.  The number of cells with more than one candidate falls with every guess.
\<close>

definition unresolved :: "Board \<Rightarrow> nat" where
  "unresolved b = length (filter (\<lambda>c. 1 < Cell_Count c) b)"

lemma Board_Set_narrows:
  assumes "Board_Set b i j d = Inr r"
  shows "\<exists>k. Board_At b i j = Inr k \<and> narrows r (b[k := Cell_Set (Cell_Clear (b ! k)) d])"
proof -
  from assms obtain k where k: "Board_At b i j = Inr k"
    by (subst (asm) Board_Set.simps) (auto split: sum.splits)
  have "length r = length b \<and>
        (\<forall>k. Board_At b i j = Inr k \<longrightarrow> narrows r (b[k := Cell_Set (Cell_Clear (b ! k)) d]))"
    using Board_Set_terminates [THEN spec] assms
    by (rule Board_Set_partial(1) [where R = narrows, rotated 3])
      (auto intro: narrows_trans narrows_Drop)
  with k show ?thesis by blast
qed

lemma Cell_Count_card: "Cell_Count c = int (card {n. bit c n})"
  by (simp add: Cell_Count_def OnesCount_ucast)

lemma Cell_Count_mono:
  assumes "\<And>e. Cell_IsSet c e \<Longrightarrow> Cell_IsSet c' e"
  shows "Cell_Count c \<le> Cell_Count c'"
proof -
  have "bit c' n" if "bit c n" for n
  proof -
    from that have "n < 16" by (auto dest: bit_imp_le_length)
    then have "unat ((1 + of_nat n :: uint) - 1) = n" by (simp add: unat_of_nat)
    with that assms [of "1 + of_nat n"] show ?thesis by (simp add: Cell_IsSet_iff)
  qed
  then have "{n. bit c n} \<subseteq> {n. bit c' n}" by blast
  moreover have "finite {n. bit c' n}" by simp
  ultimately have "card {n. bit c n} \<le> card {n. bit c' n}" by (intro card_mono)
  then show ?thesis by (simp add: Cell_Count_card)
qed

lemma Cell_Count_Set_Clear: "Cell_Count (Cell_Set (Cell_Clear c) d) \<le> 1"
proof -
  have "{n. bit (Cell_Set (Cell_Clear c) d) n} \<subseteq> {unat (d - 1)}"
    by (auto simp: bit_Cell_Set)
  then have "card {n. bit (Cell_Set (Cell_Clear c) d) n} \<le> card {unat (d - 1)}"
    by (intro card_mono) simp_all
  then show ?thesis by (simp add: Cell_Count_card)
qed

lemma Cell_Count_zero [simp]: "Cell_Count 0 = 0"
  by (simp add: Cell_Count_card)

lemma unresolved_card:
  "unresolved b = card {m. m < length b \<and> 1 < Cell_Count (b ! m)}"
  by (simp add: unresolved_def length_filter_conv_card)

lemma unresolved_mono:
  assumes "narrows r b"
  shows "unresolved r \<le> unresolved b"
proof -
  have "1 < Cell_Count (b ! m)" if "m < length b" "1 < Cell_Count (r ! m)" for m
    using Cell_Count_mono [of "r ! m" "b ! m"] narrows_IsSet [OF assms that(1)] that(2) by force
  then have "{m. m < length r \<and> 1 < Cell_Count (r ! m)} \<subseteq> {m. m < length b \<and> 1 < Cell_Count (b ! m)}"
    using narrows_length [OF assms] by auto
  then show ?thesis unfolding unresolved_card by (intro card_mono) simp_all
qed

lemma unresolved_update_resolved:
  assumes "Cell_Count v \<le> 1"
  shows "{m. m < length (b[k := v]) \<and> 1 < Cell_Count (b[k := v] ! m)}
         = {m. m < length b \<and> 1 < Cell_Count (b ! m)} - {k}"
proof (cases "k < length b")
  case True
  with assms show ?thesis by (auto simp: nth_list_update)
next
  case False
  then show ?thesis by auto
qed

lemma unresolved_update_eq:
  "Cell_Count v \<le> 1 \<Longrightarrow> unresolved (b[k := v]) = unresolved (b[k := 0])"
  unfolding unresolved_card by (simp add: unresolved_update_resolved del: length_list_update)

lemma unresolved_update_less:
  assumes "k < length b" "1 < Cell_Count (b ! k)" "Cell_Count v \<le> 1"
  shows "unresolved (b[k := v]) < unresolved b"
proof -
  have "k \<in> {m. m < length b \<and> 1 < Cell_Count (b ! m)}" using assms(1,2) by simp
  then have "card ({m. m < length b \<and> 1 < Cell_Count (b ! m)} - {k})
             < card {m. m < length b \<and> 1 < Cell_Count (b ! m)}"
    by (intro card_Diff1_less) simp_all
  then show ?thesis
    unfolding unresolved_card by (simp add: unresolved_update_resolved [OF assms(3)] del: length_list_update)
qed

lemma Board_Lowest_scan_found:
  "Board_Lowest_scan b cs (lo, i, j, ok) = Inr (lo', i', j', ok') \<Longrightarrow> ok' \<Longrightarrow>
   ok \<and> (i', j') = (i, j) \<or> (\<exists>k. Board_At b i' j' = Inr k \<and> 1 < Cell_Count (b ! k))"
proof (induction cs arbitrary: lo i j ok)
  case Nil
  then show ?case by simp
next
  case (Cons c cs)
  obtain ii jj where c: "c = (ii, jj)" by (cases c)
  from Cons.prems(1) obtain k where k: "Board_At b ii jj = Inr k"
    by (auto simp: c split: sum.splits)
  show ?case
  proof (cases "1 < Cell_Count (b ! k) \<and> Cell_Count (b ! k) < lo")
    case True
    with Cons.prems(1) k have "Board_Lowest_scan b cs (Cell_Count (b ! k), ii, jj, True) = Inr (lo', i', j', ok')"
      by (simp add: c Let_def)
    from Cons.IH [OF this Cons.prems(2)] True k show ?thesis by auto
  next
    case False
    with Cons.prems(1) k have "Board_Lowest_scan b cs (lo, i, j, ok) = Inr (lo', i', j', ok')"
      by (auto simp: c Let_def)
    from Cons.IH [OF this Cons.prems(2)] show ?thesis .
  qed
qed

lemma Board_Lowest_found:
  assumes "Board_Lowest b = Inr (i, j, True)"
  shows "\<exists>k. Board_At b i j = Inr k \<and> 1 < Cell_Count (b ! k)"
proof -
  from assms obtain lo where
    "Board_Lowest_scan b Board_cells (int Size + 1, 0, 0, False) = Inr (lo, i, j, True)"
    by (auto simp: Board_Lowest_def split: sum.splits)
  from Board_Lowest_scan_found [OF this] show ?thesis by simp
qed

definition Board_Solve_measure :: "Board + Board \<times> int \<times> int \<times> uint list \<Rightarrow> nat \<times> nat" where
  "Board_Solve_measure a =
     (case a of
        Inl b \<Rightarrow> (unresolved b, 0)
      | Inr (b, i, j, ds) \<Rightarrow>
          ((case Board_At b i j of Inl _ \<Rightarrow> 0 | Inr k \<Rightarrow> unresolved (b[k := 0])), Suc (length ds)))"

function Board_Solve :: "Board \<Rightarrow> error + bool \<times> Board"
  and Board_Solve_guess :: "Board \<Rightarrow> int \<Rightarrow> int \<Rightarrow> uint list \<Rightarrow> error + bool \<times> Board"
where
  "Board_Solve b =
     (case Board_Lowest b of
        Inl e \<Rightarrow> Inl e
      | Inr (i, j, ok) \<Rightarrow>
          if \<not> ok then (case Board_Solved b of Inl e \<Rightarrow> Inl e | Inr s \<Rightarrow> Inr (s, b))
          else (case Board_At b i j of
                  Inl e \<Rightarrow> Inl e
                | Inr k \<Rightarrow> Board_Solve_guess b i j (Cell_Digits (b ! k))))"
| "Board_Solve_guess b i j [] = Inr (False, b)"
| "Board_Solve_guess b i j (d # ds) =
     (let cpy = b
      in case Board_Set b i j d of
           Inl e \<Rightarrow> Inl e
         | Inr b1 \<Rightarrow>
             (case Board_Solve b1 of
                Inl e \<Rightarrow> Inl e
              | Inr (solved, b2) \<Rightarrow>
                  if solved then Inr (True, b2) else Board_Solve_guess cpy i j ds))"
  by pat_completeness auto
lemma Board_Solve_terminates: "All Board_Solve_Board_Solve_guess_dom"
proof (relation "inv_image (less_than <*lex*> less_than) Board_Solve_measure", goal_cases)
  case 1
  show ?case by (intro wf_inv_image wf_lex_prod wf_less_than)
next
  case (2 b x i y j ok k)
  then have "Board_Lowest b = Inr (i, j, True)" by simp
  from Board_Lowest_found [OF this] 2 have "1 < Cell_Count (b ! k)" by simp
  moreover have "k < length b" using 2 by (auto dest: Board_At_less_length)
  ultimately have "unresolved (b[k := 0]) < unresolved b"
    by (intro unresolved_update_less) simp_all
  with 2 show ?case by (simp add: Board_Solve_measure_def)
next
  case (3 b i j d ds cpy b1)
  from Board_Set_narrows [OF 3(2) [unfolded 3(1)]] obtain k where k: "Board_At b i j = Inr k"
    and n: "narrows b1 (b[k := Cell_Set (Cell_Clear (b ! k)) d])" by blast
  have "unresolved b1 \<le> unresolved (b[k := Cell_Set (Cell_Clear (b ! k)) d])"
    using n by (rule unresolved_mono)
  also have "\<dots> = unresolved (b[k := 0])"
    by (intro unresolved_update_eq Cell_Count_Set_Clear)
  finally show ?case using k by (auto simp: Board_Solve_measure_def)
next
  case (4 b i j d ds cpy b1 r solved b2)
  then show ?case by (simp add: Board_Solve_measure_def)
qed

termination Board_Solve
  by (rule Board_Solve_terminates)

declare Board_Solve.simps [simp del]

text \<open>
  A sequence of top-level assignments, as \<^verbatim>\<open>main\<close> applies the clues of the example
  before it calls \<^verbatim>\<open>Solve\<close>.
\<close>

fun Board_Set_all :: "Board \<Rightarrow> (int \<times> int \<times> uint) list \<Rightarrow> error + Board" where
  "Board_Set_all b [] = Inr b"
| "Board_Set_all b ((i, j, d) # rest) =
     (case Board_Set b i j d of Inl e \<Rightarrow> Inl e | Inr b' \<Rightarrow> Board_Set_all b' rest)"

definition seeds :: "(int \<times> int \<times> uint) list" where
  "seeds =
     [(0, 0, 8), (1, 2, 3), (1, 3, 6), (2, 1, 7), (2, 4, 9), (2, 6, 2), (3, 1, 5),
      (3, 5, 7), (4, 4, 4), (4, 5, 5), (4, 6, 7), (5, 3, 1), (5, 7, 3), (6, 2, 1),
      (6, 7, 6), (6, 8, 8), (7, 2, 8), (7, 3, 5), (7, 7, 1), (8, 1, 9), (8, 6, 4)]"

definition main :: "error + bool \<times> Board" where
  "main = (case Board_Set_all EmptyBoard seeds of Inl e \<Rightarrow> Inl e | Inr b \<Rightarrow> Board_Solve b)"

lemma EmptyBoard_replicate: "EmptyBoard = replicate 81 All_Cell"
  by code_simp

lemma length_EmptyBoard [simp]: "length EmptyBoard = 81"
  by (simp add: EmptyBoard_replicate)

lemma EmptyBoard_nth: "valid p \<Longrightarrow> EmptyBoard ! idx p = All_Cell"
  by (simp add: EmptyBoard_replicate idx_less)

lemma not_Single_All_Cell: "\<not> Cell_Single All_Cell"
  by code_simp

lemma propagated_EmptyBoard: "propagated EmptyBoard"
  by (simp add: propagated_def EmptyBoard_nth not_Single_All_Cell)

subsection \<open>The scans of \<^verbatim>\<open>Lowest\<close> and \<^verbatim>\<open>Solved\<close>\<close>

lemma Cell_Count_code [code]:
  "Cell_Count c = (if c = 0 then 0 else 1 + Cell_Count (c AND (c - 1)))"
proof (cases "c = 0")
  case True
  then show ?thesis by simp
next
  case False
  note tz = TrailingZeros_props [OF False]
  let ?t = "TrailingZeros (ucast c)"
  have "bit (c AND (c - 1)) n \<longleftrightarrow> bit c n \<and> n \<noteq> ?t" for n
  proof -
    have "bit (c AND (c - 1)) n \<longleftrightarrow> ?t < n \<and> bit c n"
      by (rule Cell_and_dec_bits [OF False])
    also have "\<dots> \<longleftrightarrow> bit c n \<and> n \<noteq> ?t"
      using tz(3) [of n] by (cases "n < ?t") auto
    finally show ?thesis .
  qed
  then have "{n. bit (c AND (c - 1)) n} = {n. bit c n} - {?t}"
    by blast
  moreover have "?t \<in> {n. bit c n}" using tz(2) by simp
  moreover have "finite {n. bit c n}" by simp
  ultimately have "card {n. bit c n} = Suc (card {n. bit (c AND (c - 1)) n})"
    by (metis card.remove)
  then have "Cell_Count c = 1 + Cell_Count (c AND (c - 1))"
    unfolding Cell_Count_card by simp
  with False show ?thesis by (simp only: if_False)
qed

definition cnt :: "Board \<Rightarrow> pos \<Rightarrow> int" where
  "cnt b p = Cell_Count (b ! idx p)"

lemma Board_cells_grid:
  "Board_cells = concat (map (\<lambda>r. map (\<lambda>c. (r, c)) [0..8]) [0..8])"
  unfolding Board_cells_def range_Size ..

lemma set_Board_cells: "set Board_cells = {p. valid p}"
  unfolding Board_cells_grid set_grid by (auto simp: valid_def)

lemma Board_Solved_scan_spec:
  assumes "length b = 81" "\<forall>p \<in> set cs. valid p"
  shows "Board_Solved_scan b cs = Inr (\<forall>p \<in> set cs. Cell_Single (b ! idx p))"
  using assms(2)
proof (induction cs)
  case Nil
  show ?case by simp
next
  case (Cons c cs)
  obtain i j where c: "c = (i, j)" by (cases c)
  with Cons.prems have "valid (i, j)" by simp
  then have "Board_At b i j = Inr (idx (i, j))"
    using assms(1) by (intro Board_At_valid)
  with Cons show ?case by (simp add: c)
qed

lemma Board_Solved_spec:
  assumes "length b = 81"
  shows "Board_Solved b = Inr (\<forall>p. valid p \<longrightarrow> Cell_Single (b ! idx p))"
  unfolding Board_Solved_def
  by (subst Board_Solved_scan_spec [OF assms]) (auto simp: set_Board_cells)

definition improves :: "Board \<Rightarrow> pos list \<Rightarrow> int \<Rightarrow> bool" where
  "improves b cs lo \<longleftrightarrow> (\<exists>p \<in> set cs. 1 < cnt b p \<and> cnt b p < lo)"

definition first_min :: "Board \<Rightarrow> pos list \<Rightarrow> pos \<Rightarrow> bool" where
  "first_min b cs p' \<longleftrightarrow>
     (\<exists>xs ys. cs = xs @ p' # ys \<and> (\<forall>p \<in> set xs. 1 < cnt b p \<longrightarrow> cnt b p' < cnt b p) \<and>
              (\<forall>p \<in> set ys. 1 < cnt b p \<longrightarrow> cnt b p' \<le> cnt b p))"

definition scanned :: "Board \<Rightarrow> pos list \<Rightarrow> int \<times> int \<times> int \<times> bool \<Rightarrow> int \<times> int \<times> int \<times> bool \<Rightarrow> bool" where
  "scanned b cs st res \<longleftrightarrow>
     (if improves b cs (fst st)
      then \<exists>p'. res = (cnt b p', fst p', snd p', True) \<and> 1 < cnt b p' \<and> cnt b p' < fst st \<and>
                first_min b cs p'
      else res = st)"

lemma improves_Cons:
  "improves b (c # cs) lo \<longleftrightarrow> (1 < cnt b c \<and> cnt b c < lo) \<or> improves b cs lo"
  by (auto simp: improves_def)

lemma first_min_here:
  assumes "\<not> improves b cs (cnt b c)"
  shows "first_min b (c # cs) c"
proof -
  have "c # cs = [] @ c # cs" by simp
  moreover have "\<forall>p \<in> set cs. 1 < cnt b p \<longrightarrow> cnt b c \<le> cnt b p"
    using assms by (auto simp: improves_def)
  ultimately show ?thesis unfolding first_min_def by fastforce
qed

lemma first_min_later:
  assumes "first_min b cs p'" "1 < cnt b c \<longrightarrow> cnt b p' < cnt b c"
  shows "first_min b (c # cs) p'"
proof -
  from assms(1) obtain xs ys where
    *: "cs = xs @ p' # ys" "\<forall>p \<in> set xs. 1 < cnt b p \<longrightarrow> cnt b p' < cnt b p"
       "\<forall>p \<in> set ys. 1 < cnt b p \<longrightarrow> cnt b p' \<le> cnt b p"
    unfolding first_min_def by blast
  have "c # cs = (c # xs) @ p' # ys" using *(1) by simp
  moreover have "\<forall>p \<in> set (c # xs). 1 < cnt b p \<longrightarrow> cnt b p' < cnt b p"
    using *(2) assms(2) by simp
  ultimately show ?thesis unfolding first_min_def using *(3) by blast
qed

lemma first_min_mem: "first_min b cs p' \<Longrightarrow> p' \<in> set cs"
  unfolding first_min_def by auto

lemma scanned_take:
  assumes "1 < cnt b c" "cnt b c < lo" "scanned b cs (cnt b c, fst c, snd c, True) res"
  shows "scanned b (c # cs) (lo, i, j, ok) res"
proof (cases "improves b cs (cnt b c)")
  case True
  with assms(3) obtain p' where
    *: "res = (cnt b p', fst p', snd p', True)" "1 < cnt b p'" "cnt b p' < cnt b c" "first_min b cs p'"
    unfolding scanned_def by auto
  have "first_min b (c # cs) p'" using *(4) *(3) by (intro first_min_later) simp_all
  moreover have "cnt b p' < lo" using *(3) assms(2) by simp
  moreover have "improves b (c # cs) lo" using assms(1,2) by (simp add: improves_Cons)
  ultimately show ?thesis unfolding scanned_def using *(1,2) by auto
next
  case False
  with assms(3) have "res = (cnt b c, fst c, snd c, True)" unfolding scanned_def by simp
  moreover have "first_min b (c # cs) c" using False by (rule first_min_here)
  moreover have "improves b (c # cs) lo" using assms(1,2) by (simp add: improves_Cons)
  ultimately show ?thesis unfolding scanned_def using assms(1,2) by auto
qed

lemma scanned_skip:
  assumes "\<not> (1 < cnt b c \<and> cnt b c < lo)" "scanned b cs (lo, i, j, ok) res"
  shows "scanned b (c # cs) (lo, i, j, ok) res"
proof (cases "improves b cs lo")
  case True
  with assms(2) obtain p' where
    *: "res = (cnt b p', fst p', snd p', True)" "1 < cnt b p'" "cnt b p' < lo" "first_min b cs p'"
    unfolding scanned_def by auto
  have "first_min b (c # cs) p'" using *(4) *(3) assms(1) by (intro first_min_later) auto
  moreover have "improves b (c # cs) lo" using True by (simp add: improves_Cons)
  ultimately show ?thesis unfolding scanned_def using *(1,2,3) by auto
next
  case False
  with assms(2) have "res = (lo, i, j, ok)" unfolding scanned_def by simp
  moreover have "\<not> improves b (c # cs) lo" using False assms(1) by (simp add: improves_Cons)
  ultimately show ?thesis unfolding scanned_def by simp
qed

lemma Board_Lowest_scan_spec:
  assumes "length b = 81" "\<forall>p \<in> set cs. valid p"
  shows "\<exists>res. Board_Lowest_scan b cs (lo, i, j, ok) = Inr res \<and> scanned b cs (lo, i, j, ok) res"
  using assms(2)
proof (induction cs arbitrary: lo i j ok)
  case Nil
  show ?case by (simp add: scanned_def improves_def)
next
  case (Cons c cs)
  obtain ii jj where c: "c = (ii, jj)" by (cases c)
  with Cons.prems have v: "valid (ii, jj)" and vs: "\<forall>p \<in> set cs. valid p" by simp_all
  have at: "Board_At b ii jj = Inr (idx (ii, jj))"
    using assms(1) v by (rule Board_At_valid)
  show ?case
  proof (cases "1 < cnt b c \<and> cnt b c < lo")
    case True
    then have step: "Board_Lowest_scan b (c # cs) (lo, i, j, ok)
                     = Board_Lowest_scan b cs (cnt b c, ii, jj, True)"
      by (simp add: c at cnt_def Let_def)
    from Cons.IH [OF vs, of "cnt b c" ii jj True] obtain res where
      r: "Board_Lowest_scan b cs (cnt b c, ii, jj, True) = Inr res"
      and s: "scanned b cs (cnt b c, ii, jj, True) res"
      by blast
    from s have "scanned b cs (cnt b c, fst c, snd c, True) res" by (simp add: c)
    with True have "scanned b (c # cs) (lo, i, j, ok) res" by (intro scanned_take) simp_all
    with r step show ?thesis by simp
  next
    case False
    then have step: "Board_Lowest_scan b (c # cs) (lo, i, j, ok)
                     = Board_Lowest_scan b cs (lo, i, j, ok)"
      by (auto simp: c at cnt_def Let_def)
    from Cons.IH [OF vs, of lo i j ok] obtain res where
      r: "Board_Lowest_scan b cs (lo, i, j, ok) = Inr res"
      and s: "scanned b cs (lo, i, j, ok) res"
      by blast
    from False s have "scanned b (c # cs) (lo, i, j, ok) res" by (rule scanned_skip)
    with r step show ?thesis by simp
  qed
qed

lemma idx_Board_cells: "map idx Board_cells = [0..<81]"
  by code_simp

lemma Board_cells_sorted: "sorted_wrt (\<lambda>p q. idx p < idx q) Board_cells"
proof -
  have "sorted_wrt (<) (map idx Board_cells)"
    unfolding idx_Board_cells by (rule sorted_wrt_upt)
  then show ?thesis by (simp add: sorted_wrt_map)
qed

lemma idx_less_rowmajor:
  assumes "valid p" "valid q" "idx p < idx q"
  shows "fst p < fst q \<or> (fst p = fst q \<and> snd p < snd q)"
proof -
  from assms have "fst p * 9 + snd p < fst q * 9 + snd q"
    by (simp add: idx_def valid_def)
  with assms(1,2) show ?thesis unfolding valid_def by presburger
qed

lemma first_min_Board_cells:
  assumes "first_min b Board_cells p'" "valid p" "1 < cnt b p"
  shows "valid p' \<and> cnt b p' \<le> cnt b p \<and>
         (cnt b p = cnt b p' \<longrightarrow> fst p' < fst p \<or> (fst p' = fst p \<and> snd p' \<le> snd p))"
proof -
  from assms(1) obtain xs ys where
    *: "Board_cells = xs @ p' # ys" "\<forall>p \<in> set xs. 1 < cnt b p \<longrightarrow> cnt b p' < cnt b p"
       "\<forall>p \<in> set ys. 1 < cnt b p \<longrightarrow> cnt b p' \<le> cnt b p"
    unfolding first_min_def by blast
  have "p' \<in> set Board_cells" unfolding *(1) by simp
  then have v': "valid p'" by (simp add: set_Board_cells)
  have later: "\<forall>q \<in> set ys. idx p' < idx q"
    using Board_cells_sorted unfolding *(1) by (simp add: sorted_wrt_append)
  from assms(2) have "p \<in> set Board_cells" by (simp add: set_Board_cells)
  then consider "p \<in> set xs" | "p = p'" | "p \<in> set ys" unfolding *(1) by auto
  then show ?thesis
  proof cases
    case 1
    with *(2) assms(3) v' show ?thesis by auto
  next
    case 2
    with v' show ?thesis by simp
  next
    case 3
    with later have "idx p' < idx p" by simp
    with v' assms(2) have "fst p' < fst p \<or> (fst p' = fst p \<and> snd p' < snd p)"
      by (intro idx_less_rowmajor)
    with 3 *(3) assms(3) v' show ?thesis by auto
  qed
qed

lemma Board_Lowest_spec:
  assumes "length b = 81"
  shows "if improves b Board_cells 10
         then \<exists>p'. Board_Lowest b = Inr (fst p', snd p', True) \<and> 1 < cnt b p' \<and> cnt b p' < 10 \<and>
                   first_min b Board_cells p'
         else Board_Lowest b = Inr (0, 0, False)"
proof -
  have "\<forall>p \<in> set Board_cells. valid p" by (simp add: set_Board_cells)
  from Board_Lowest_scan_spec [OF assms this, of 10 0 0 False] obtain res where
    r: "Board_Lowest_scan b Board_cells (10, 0, 0, False) = Inr res"
    and s: "scanned b Board_cells (10, 0, 0, False) res" by blast
  have init: "int Size + 1 = 10" by (simp add: Size_def)
  show ?thesis
  proof (cases "improves b Board_cells 10")
    case True
    with s obtain p' where
      *: "res = (cnt b p', fst p', snd p', True)" "1 < cnt b p'" "cnt b p' < 10" "first_min b Board_cells p'"
      unfolding scanned_def by auto
    have "Board_Lowest b = Inr (fst p', snd p', True)"
      unfolding Board_Lowest_def init r by (simp add: *(1))
    with True * show ?thesis by auto
  next
    case False
    with s have "res = (10, 0, 0, False)" unfolding scanned_def by simp
    then have "Board_Lowest b = Inr (0, 0, False)"
      unfolding Board_Lowest_def init r by simp
    with False show ?thesis by simp
  qed
qed

lemma improves_iff:
  assumes "length b = 81" "\<forall>c \<in> set b. Cell_Count c \<le> 9"
  shows "improves b Board_cells 10 \<longleftrightarrow> (\<exists>p. valid p \<and> 1 < cnt b p)"
proof -
  have "cnt b p < 10" if "valid p" for p
  proof -
    from that assms(1) have "b ! idx p \<in> set b" by (simp add: idx_less)
    with assms(2) show ?thesis by (auto simp: cnt_def)
  qed
  then show ?thesis by (auto simp: improves_def set_Board_cells)
qed

subsection \<open>The search returns, and restores the board when it fails\<close>

lemma Board_Lowest_cases:
  assumes "length b = 81"
  obtains (none) "Board_Lowest b = Inr (0, 0, False)" "\<not> improves b Board_cells 10"
  | (some) p where "Board_Lowest b = Inr (fst p, snd p, True)" "valid p" "1 < cnt b p"
      "cnt b p < 10" "first_min b Board_cells p"
proof (cases "improves b Board_cells 10")
  case True
  with Board_Lowest_spec [OF assms] obtain p where
    *: "Board_Lowest b = Inr (fst p, snd p, True)" "1 < cnt b p" "cnt b p < 10" "first_min b Board_cells p"
    by auto
  from *(4) have "p \<in> set Board_cells" by (rule first_min_mem)
  then have "valid p" by (simp add: set_Board_cells)
  with * show ?thesis by (intro some)
next
  case False
  with Board_Lowest_spec [OF assms] show ?thesis by (intro none) simp_all
qed


lemma Board_Solve_induct [case_names Solve Nil Cons]:
  assumes "\<And>b. (\<And>i j k. Board_Lowest b = Inr (i, j, True) \<Longrightarrow> Board_At b i j = Inr k \<Longrightarrow>
                    Q b i j (Cell_Digits (b ! k))) \<Longrightarrow> P b"
    and "\<And>b i j. Q b i j []"
    and "\<And>b i j d ds.
           (\<And>b1. Board_Set b i j d = Inr b1 \<Longrightarrow> P b1) \<Longrightarrow>
           (\<And>b1 b2. Board_Set b i j d = Inr b1 \<Longrightarrow> Board_Solve b1 = Inr (False, b2) \<Longrightarrow> Q b i j ds) \<Longrightarrow>
           Q b i j (d # ds)"
  shows "P b" and "Q b i j ds"
proof (induct b and b i j ds rule: Board_Solve_Board_Solve_guess.induct)
  case (1 b)
  show ?case by (rule assms(1)) (rule 1, auto)
next
  case (2 b i j)
  show ?case by (rule assms(2))
next
  case (3 b i j d ds)
  show ?case
  proof (rule assms(3))
    fix b1 assume "Board_Set b i j d = Inr b1"
    then show "P b1" by (intro 3(1)) simp_all
  next
    fix b1 b2 assume "Board_Set b i j d = Inr b1" "Board_Solve b1 = Inr (False, b2)"
    then show "Q b i j ds" by (intro 3(2) [of b b1 "(False, b2)" False b2]) simp_all
  qed
qed

lemma Board_Solve_none:
  "Board_Lowest b = Inr (i, j, False) \<Longrightarrow>
   Board_Solve b = (case Board_Solved b of Inl e \<Rightarrow> Inl e | Inr s \<Rightarrow> Inr (s, b))"
  by (subst Board_Solve.simps) simp

lemma Board_Solve_some:
  "Board_Lowest b = Inr (i, j, True) \<Longrightarrow> Board_At b i j = Inr k \<Longrightarrow>
   Board_Solve b = Board_Solve_guess b i j (Cell_Digits (b ! k))"
  by (subst Board_Solve.simps) simp

lemma Board_Solve_guess_Cons:
  "Board_Solve_guess b i j (d # ds) =
     (case Board_Set b i j d of Inl e \<Rightarrow> Inl e
      | Inr b1 \<Rightarrow> (case Board_Solve b1 of Inl e \<Rightarrow> Inl e
                  | Inr (solved, b2) \<Rightarrow> if solved then Inr (True, b2) else Board_Solve_guess b i j ds))"
  by (simp add: Let_def)

declare Board_Solve_guess.simps(2) [simp del]

lemma Board_Solve_total:
  shows "length b = 81 \<Longrightarrow> \<exists>ok r. Board_Solve b = Inr (ok, r) \<and> length r = 81"
    and "length b = 81 \<Longrightarrow> valid (i, j) \<Longrightarrow>
           \<exists>ok r. Board_Solve_guess b i j ds = Inr (ok, r) \<and> length r = 81"
proof (induction b and b i j ds rule: Board_Solve_induct)
  case (Solve b)
  from Solve.prems show ?case
  proof (cases rule: Board_Lowest_cases)
    case none
    then show ?thesis
      using Solve.prems by (auto simp: Board_Solve_none Board_Solved_spec)
  next
    case (some p)
    have at: "Board_At b (fst p) (snd p) = Inr (idx p)"
      using Board_At_valid [OF Solve.prems, of "fst p" "snd p"] some(2) by simp
    from Solve.IH [OF some(1) at Solve.prems] some(2)
    show ?thesis by (simp add: Board_Solve_some [OF some(1) at])
  qed
next
  case (Nil b i j)
  then show ?case by auto
next
  case (Cons b i j d ds)
  from Board_Set_valid [OF Cons.prems, of d] obtain b1
    where b1: "Board_Set b i j d = Inr b1" "length b1 = 81" by blast
  from Cons.IH(1) [OF b1] obtain ok1 b2 where
    s1: "Board_Solve b1 = Inr (ok1, b2)" "length b2 = 81" by blast
  show ?case
  proof (cases ok1)
    case True
    with b1 s1 show ?thesis by (auto simp: Board_Solve_guess_Cons)
  next
    case False
    with s1 have "Board_Solve b1 = Inr (False, b2)" by simp
    from Cons.IH(2) [OF b1(1) this Cons.prems] b1 s1 False
    show ?thesis by (auto simp: Board_Solve_guess_Cons)
  qed
qed

lemma Board_Solve_restores:
  shows "Board_Solve b = Inr (False, r) \<Longrightarrow> r = b"
    and "Board_Solve_guess b i j ds = Inr (False, r) \<Longrightarrow> r = b"
proof (induction b and b i j ds arbitrary: r and r rule: Board_Solve_induct)
  case (Solve b)
  from Solve.prems obtain i j ok where low: "Board_Lowest b = Inr (i, j, ok)"
    by (subst (asm) Board_Solve.simps) (auto split: sum.splits)
  show ?case
  proof (cases ok)
    case False
    with low Solve.prems show ?thesis
      by (auto simp: Board_Solve_none split: sum.splits)
  next
    case True
    with low Solve.prems obtain k where k: "Board_At b i j = Inr k"
      by (subst (asm) Board_Solve.simps) (auto split: sum.splits)
    from low True have low': "Board_Lowest b = Inr (i, j, True)" by simp
    from Solve.prems have "Board_Solve_guess b i j (Cell_Digits (b ! k)) = Inr (False, r)"
      by (simp add: Board_Solve_some [OF low' k])
    with Solve.IH [OF low' k] show ?thesis .
  qed
next
  case (Nil b i j)
  then show ?case by simp
next
  case (Cons b i j d ds)
  from Cons.prems obtain b1 ok1 b2 where
    b1: "Board_Set b i j d = Inr b1" and s1: "Board_Solve b1 = Inr (ok1, b2)"
    by (auto simp: Board_Solve_guess_Cons split: sum.splits)
  with Cons.prems have f: "\<not> ok1" and rest: "Board_Solve_guess b i j ds = Inr (False, r)"
    by (auto simp: Board_Solve_guess_Cons split: if_splits)
  from s1 f have "Board_Solve b1 = Inr (False, b2)" by simp
  from Cons.IH(2) [OF b1 this rest] show ?case .
qed

subsection \<open>The depth of the search\<close>

text \<open>
  The same search with a budget for the depth of the recursion: \<open>n\<close> is the number of
  nested \<^verbatim>\<open>Solve\<close> calls still allowed below the current one, and \<open>None\<close> reports that
  a deeper call would have been needed.
\<close>

fun Board_Solve_upto :: "nat \<Rightarrow> Board \<Rightarrow> (error + bool \<times> Board) option"
  and Board_Solve_guess_upto :: "nat \<Rightarrow> Board \<Rightarrow> int \<Rightarrow> int \<Rightarrow> uint list \<Rightarrow> (error + bool \<times> Board) option"
where
  "Board_Solve_upto n b =
     (case Board_Lowest b of
        Inl e \<Rightarrow> Some (Inl e)
      | Inr (i, j, ok) \<Rightarrow>
          if \<not> ok then (case Board_Solved b of Inl e \<Rightarrow> Some (Inl e) | Inr s \<Rightarrow> Some (Inr (s, b)))
          else (case Board_At b i j of
                  Inl e \<Rightarrow> Some (Inl e)
                | Inr k \<Rightarrow> Board_Solve_guess_upto n b i j (Cell_Digits (b ! k))))"
| "Board_Solve_guess_upto n b i j [] = Some (Inr (False, b))"
| "Board_Solve_guess_upto n b i j (d # ds) =
     (case Board_Set b i j d of
        Inl e \<Rightarrow> Some (Inl e)
      | Inr b1 \<Rightarrow>
          (case n of
             0 \<Rightarrow> None
           | Suc m \<Rightarrow>
               (case Board_Solve_upto m b1 of
                  None \<Rightarrow> None
                | Some (Inl e) \<Rightarrow> Some (Inl e)
                | Some (Inr (solved, b2)) \<Rightarrow>
                    if solved then Some (Inr (True, b2)) else Board_Solve_guess_upto n b i j ds)))"

declare Board_Solve_upto.simps [simp del]

lemma Board_Solve_upto_enough:
  shows "unresolved b \<le> n \<Longrightarrow> Board_Solve_upto n b = Some (Board_Solve b)"
    and "(\<And>k. Board_At b i j = Inr k \<Longrightarrow> unresolved (b[k := 0]) < n) \<Longrightarrow>
           Board_Solve_guess_upto n b i j ds = Some (Board_Solve_guess b i j ds)"
proof (induction b and b i j ds arbitrary: n and n rule: Board_Solve_induct)
  case (Solve b)
  show ?case
  proof (cases "Board_Lowest b")
    case (Inl e)
    then show ?thesis by (simp add: Board_Solve_upto.simps Board_Solve.simps)
  next
    case (Inr res)
    obtain i j ok where res: "res = (i, j, ok)" by (cases res)
    show ?thesis
    proof (cases ok)
      case False
      with Inr res show ?thesis
        by (auto simp: Board_Solve_upto.simps Board_Solve.simps split: sum.splits)
    next
      case True
      with Inr res have low: "Board_Lowest b = Inr (i, j, True)" by simp
      show ?thesis
      proof (cases "Board_At b i j")
        case (Inl e)
        with low show ?thesis by (simp add: Board_Solve_upto.simps Board_Solve.simps)
      next
        case at: (Inr k)
        from Board_Lowest_found [OF low] at have "1 < Cell_Count (b ! k)" by simp
        moreover have "k < length b" using at by (rule Board_At_less_length)
        ultimately have "unresolved (b[k := 0]) < unresolved b"
          by (intro unresolved_update_less) simp_all
        with Solve.prems have "unresolved (b[k := 0]) < n" by simp
        with at have "Board_Solve_guess_upto n b i j (Cell_Digits (b ! k))
                      = Some (Board_Solve_guess b i j (Cell_Digits (b ! k)))"
          by (intro Solve.IH [OF low at]) simp
        with low at show ?thesis by (simp add: Board_Solve_upto.simps Board_Solve.simps)
      qed
    qed
  qed
next
  case (Nil b i j)
  show ?case by simp
next
  case (Cons b i j d ds)
  show ?case
  proof (cases "Board_Set b i j d")
    case (Inl e)
    then show ?thesis by (simp add: Board_Solve_guess_Cons)
  next
    case (Inr b1)
    from Board_Set_narrows [OF Inr] obtain k where k: "Board_At b i j = Inr k"
      and nr: "narrows b1 (b[k := Cell_Set (Cell_Clear (b ! k)) d])" by blast
    have "unresolved b1 \<le> unresolved (b[k := Cell_Set (Cell_Clear (b ! k)) d])"
      using nr by (rule unresolved_mono)
    also have "\<dots> = unresolved (b[k := 0])"
      by (intro unresolved_update_eq Cell_Count_Set_Clear)
    also have "\<dots> < n" using k by (rule Cons.prems)
    finally obtain m where n: "n = Suc m" and m: "unresolved b1 \<le> m"
      by (cases n) simp_all
    from Cons.IH(1) [OF Inr m] have s1: "Board_Solve_upto m b1 = Some (Board_Solve b1)" .
    show ?thesis
    proof (cases "Board_Solve b1")
      case (Inl e)
      with Inr s1 n show ?thesis by (simp add: Board_Solve_guess_Cons)
    next
      case res: (Inr res)
      obtain ok1 b2 where res': "res = (ok1, b2)" by (cases res)
      show ?thesis
      proof (cases ok1)
        case True
        with Inr s1 n res res' show ?thesis by (simp add: Board_Solve_guess_Cons)
      next
        case False
        with res res' have "Board_Solve b1 = Inr (False, b2)" by simp
        from Cons.IH(2) [OF Inr this, of n] Cons.prems
        have "Board_Solve_guess_upto n b i j ds = Some (Board_Solve_guess b i j ds)" by blast
        with Inr s1 n res res' False show ?thesis by (simp add: Board_Solve_guess_Cons)
      qed
    qed
  qed
qed

lemma unresolved_le_length: "unresolved b \<le> length b"
  by (simp add: unresolved_def)

subsection \<open>What a successful search returns\<close>

lemma narrows_assign:
  assumes "Cell_IsSet (b ! k) d"
  shows "narrows (b[k := Cell_Set (Cell_Clear (b ! k)) d]) b"
  using assms
  by (cases "k < length b") (auto simp: narrows_def nth_list_update Cell_IsSet_Set_Clear)

lemma Board_Solve_sound:
  shows "Board_Solve b = Inr (True, r) \<Longrightarrow> length b = 81 \<Longrightarrow>
           narrows r b \<and> (\<forall>p. valid p \<longrightarrow> Cell_Single (r ! idx p)) \<and> (propagated b \<longrightarrow> propagated r)"
    and "Board_Solve_guess b i j ds = Inr (True, r) \<Longrightarrow> length b = 81 \<Longrightarrow> valid (i, j) \<Longrightarrow>
           \<forall>d \<in> set ds. Cell_IsSet (b ! idx (i, j)) d \<Longrightarrow>
           narrows r b \<and> (\<forall>p. valid p \<longrightarrow> Cell_Single (r ! idx p)) \<and> (propagated b \<longrightarrow> propagated r)"
proof (induction b and b i j ds arbitrary: r and r rule: Board_Solve_induct)
  case (Solve b)
  from Solve.prems(2) show ?case
  proof (cases rule: Board_Lowest_cases)
    case none
    with Solve.prems have "r = b" "\<forall>p. valid p \<longrightarrow> Cell_Single (b ! idx p)"
      by (auto simp: Board_Solve_none Board_Solved_spec)
    then show ?thesis by simp
  next
    case (some p)
    have at: "Board_At b (fst p) (snd p) = Inr (idx p)"
      using Board_At_valid [OF Solve.prems(2), of "fst p" "snd p"] some(2) by simp
    from Solve.prems(1) have "Board_Solve_guess b (fst p) (snd p) (Cell_Digits (b ! idx p)) = Inr (True, r)"
      by (simp add: Board_Solve_some [OF some(1) at])
    moreover have "\<forall>d \<in> set (Cell_Digits (b ! idx p)). Cell_IsSet (b ! idx (fst p, snd p)) d"
      by (simp add: set_Cell_Digits)
    ultimately show ?thesis
      using Solve.prems(2) some(2) by (intro Solve.IH [OF some(1) at]) simp_all
  qed
next
  case (Nil b i j)
  then show ?case by simp
next
  case (Cons b i j d ds)
  from Board_Set_valid [OF Cons.prems(2,3), of d] obtain b1
    where b1: "Board_Set b i j d = Inr b1" "resolve b (i, j) d b1" "length b1 = 81" by blast
  from Board_Solve_total(1) [OF b1(3)] obtain ok1 b2 where
    s1: "Board_Solve b1 = Inr (ok1, b2)" by blast
  have n1: "narrows b1 b"
  proof -
    have "narrows b1 (b[idx (i, j) := Cell_Set (Cell_Clear (b ! idx (i, j))) d])"
      using b1(2) by (rule resolve_eliminate_narrows)
    moreover have "narrows (b[idx (i, j) := Cell_Set (Cell_Clear (b ! idx (i, j))) d]) b"
      using Cons.prems(4) by (intro narrows_assign) simp
    ultimately show ?thesis by (rule narrows_trans)
  qed
  have p1: "propagated b \<Longrightarrow> propagated b1"
    using b1(2) Cons.prems(2,3) by (rule resolve_propagated)
  show ?case
  proof (cases ok1)
    case True
    with Cons.prems(1) b1(1) s1 have "b2 = r" by (simp add: Board_Solve_guess_Cons)
    with s1 True have "Board_Solve b1 = Inr (True, r)" by simp
    from Cons.IH(1) [OF b1(1) this b1(3)] n1 p1 show ?thesis
      by (auto intro: narrows_trans)
  next
    case False
    with Cons.prems(1) b1(1) s1 have "Board_Solve_guess b i j ds = Inr (True, r)"
      by (simp add: Board_Solve_guess_Cons)
    moreover from s1 False have "Board_Solve b1 = Inr (False, b2)" by simp
    ultimately show ?thesis
      using Cons.prems(2,3,4) by (intro Cons.IH(2) [OF b1(1)]) simp_all
  qed
qed

section \<open>Boards that have a solution\<close>

definition agrees :: "Board \<Rightarrow> (pos \<Rightarrow> uint) \<Rightarrow> bool" where
  "agrees b S \<longleftrightarrow> (\<forall>p. valid p \<longrightarrow> Cell_IsSet (b ! idx p) (S p))"

definition sudoku :: "(pos \<Rightarrow> uint) \<Rightarrow> bool" where
  "sudoku S \<longleftrightarrow> (\<forall>p. valid p \<longrightarrow> (\<forall>q \<in> set (peers p). S q \<noteq> S p))"

lemma agreesD: "agrees b S \<Longrightarrow> valid p \<Longrightarrow> Cell_IsSet (b ! idx p) (S p)"
  unfolding agrees_def by blast

lemma sudokuD: "sudoku S \<Longrightarrow> valid p \<Longrightarrow> q \<in> set (peers p) \<Longrightarrow> S q \<noteq> S p"
  unfolding sudoku_def by blast

lemma agrees_Drop:
  assumes "agrees b S" "valid q" "S q \<noteq> d" "length b = 81"
  shows "agrees (b[idx q := Cell_Drop (b ! idx q) d]) S"
  unfolding agrees_def
proof (intro allI impI)
  fix p assume p: "valid p"
  show "Cell_IsSet (b[idx q := Cell_Drop (b ! idx q) d] ! idx p) (S p)"
  proof (cases "p = q")
    case True
    with assms show ?thesis by (simp add: idx_less Cell_IsSet_Drop agreesD)
  next
    case False
    with p assms(2) have "idx p \<noteq> idx q" by (simp add: idx_inj)
    with assms(1) p show ?thesis by (simp add: agreesD)
  qed
qed

lemma agrees_assign:
  assumes "agrees b S" "valid p" "S p = d" "length b = 81"
  shows "agrees (b[idx p := Cell_Set (Cell_Clear (b ! idx p)) d]) S"
  unfolding agrees_def
proof (intro allI impI)
  fix q assume q: "valid q"
  show "Cell_IsSet (b[idx p := Cell_Set (Cell_Clear (b ! idx p)) d] ! idx q) (S q)"
  proof (cases "q = p")
    case True
    from assms(1,2) have "Cell_IsSet (b ! idx p) (S p)" by (rule agreesD)
    then have "unat (S p - 1) < 16" by (auto simp: Cell_IsSet_iff dest: bit_imp_le_length)
    with True assms show ?thesis by (simp add: idx_less Cell_IsSet_Set_Clear)
  next
    case False
    with q assms(2) have "idx q \<noteq> idx p" by (simp add: idx_inj)
    with assms(1) q show ?thesis by (simp add: agreesD)
  qed
qed

lemma resolve_eliminate_agrees:
  shows "resolve b p d r \<Longrightarrow> length b = 81 \<Longrightarrow> valid p \<Longrightarrow> sudoku S \<Longrightarrow>
           agrees (b[idx p := Cell_Set (Cell_Clear (b ! idx p)) d]) S \<Longrightarrow> agrees r S"
    and "eliminate b d qs r \<Longrightarrow> length b = 81 \<Longrightarrow> \<forall>q \<in> set qs. valid q \<and> S q \<noteq> d \<Longrightarrow>
           sudoku S \<Longrightarrow> agrees b S \<Longrightarrow> agrees r S"
proof (induction rule: resolve_eliminate.inducts)
  case (resolve b p d r)
  let ?b0 = "b[idx p := Cell_Set (Cell_Clear (b ! idx p)) d]"
  have "Cell_IsSet (?b0 ! idx p) (S p)" using resolve.prems(4,2) by (rule agreesD)
  then have Sp: "S p = d" using resolve.prems(1,2) by (simp add: idx_less Cell_IsSet_Set_Clear)
  have "\<forall>q \<in> set (peers p). valid q \<and> S q \<noteq> d"
    using resolve.prems(2,3) Sp by (auto intro: peers_valid dest: sudokuD)
  moreover have "length ?b0 = 81" using resolve.prems(1) by simp
  ultimately show ?case using resolve.prems(3,4) by (intro resolve.IH)
next
  case (elim_nil b d)
  then show ?case by simp
next
  case (elim_keep b q d qs r)
  then show ?case by simp
next
  case (elim_drop b q d b' qs r)
  have "agrees b' S" unfolding elim_drop.hyps(2)
    using elim_drop.prems by (intro agrees_Drop) simp_all
  moreover have "length b' = 81" using elim_drop.hyps(2) elim_drop.prems(1) by simp
  ultimately show ?case using elim_drop.prems by (intro elim_drop.IH) simp_all
next
  case (elim_force b q d b' b'' qs r)
  have vq: "valid q" using elim_force.prems(2) by simp
  have a': "agrees b' S" unfolding elim_force.hyps(2)
    using elim_force.prems by (intro agrees_Drop) simp_all
  have l': "length b' = 81" using elim_force.hyps(2) elim_force.prems(1) by simp
  have eq: "b'[idx q := Cell_Set (Cell_Clear (b' ! idx q)) (Cell_Digit (b' ! idx q))] = b'"
    using \<open>Cell_Single (b' ! idx q)\<close> by (rule single_reset)
  have a'': "agrees b'' S"
    using l' vq elim_force.prems(3) a' by (intro elim_force.IH(1)) (simp_all add: eq)
  have "narrows b'' b'"
    using \<open>resolve b' q (Cell_Digit (b' ! idx q)) b''\<close> \<open>Cell_Single (b' ! idx q)\<close>
    by (rule resolve_narrows_single)
  then have l'': "length b'' = 81" using l' by (simp add: narrows_def)
  show ?case using l'' elim_force.prems a'' by (intro elim_force.IH(2)) simp_all
qed

lemma Cell_Count_pos: "Cell_IsSet c e \<Longrightarrow> 1 \<le> Cell_Count c"
proof -
  assume "Cell_IsSet c e"
  then have "unat (e - 1) \<in> {n. bit c n}" by (simp add: Cell_IsSet_iff)
  moreover have "finite {n. bit c n}" by simp
  ultimately have "0 < card {n. bit c n}" by (auto simp: card_gt_0_iff)
  then show ?thesis unfolding Cell_Count_card by simp
qed

definition within9 :: "Board \<Rightarrow> bool" where
  "within9 b \<longleftrightarrow> (\<forall>c \<in> set b. Cell_Count c \<le> 9)"

lemma within9_narrows:
  assumes "narrows r b" "within9 b"
  shows "within9 r"
  unfolding within9_def
proof
  fix c assume "c \<in> set r"
  then obtain m where m: "m < length r" "c = r ! m" by (auto simp: in_set_conv_nth)
  then have ml: "m < length b" using narrows_length [OF assms(1)] by simp
  have "Cell_Count (r ! m) \<le> Cell_Count (b ! m)"
    using narrows_IsSet [OF assms(1) ml] by (intro Cell_Count_mono)
  also have "\<dots> \<le> 9" using assms(2) ml by (simp add: within9_def)
  finally show "Cell_Count c \<le> 9" using m by simp
qed

lemma Board_Solve_complete:
  shows "length b = 81 \<Longrightarrow> within9 b \<Longrightarrow> sudoku S \<Longrightarrow> agrees b S \<Longrightarrow>
           \<exists>r. Board_Solve b = Inr (True, r)"
    and "length b = 81 \<Longrightarrow> within9 b \<Longrightarrow> sudoku S \<Longrightarrow> agrees b S \<Longrightarrow> valid (i, j) \<Longrightarrow>
           S (i, j) \<in> set ds \<Longrightarrow> \<forall>d \<in> set ds. Cell_IsSet (b ! idx (i, j)) d \<Longrightarrow>
           \<exists>r. Board_Solve_guess b i j ds = Inr (True, r)"
proof (induction b and b i j ds rule: Board_Solve_induct)
  case (Solve b)
  from Solve.prems(1) show ?case
  proof (cases rule: Board_Lowest_cases)
    case none
    have "Cell_Single (b ! idx p)" if "valid p" for p
    proof -
      have "\<forall>c \<in> set b. Cell_Count c \<le> 9" using Solve.prems(2) by (simp add: within9_def)
      from improves_iff [OF Solve.prems(1) this] none(2)
      have "\<not> (\<exists>p. valid p \<and> 1 < cnt b p)" by simp
      with that have "\<not> 1 < cnt b p" by blast
      moreover have "1 \<le> cnt b p"
        unfolding cnt_def using agreesD [OF Solve.prems(4) that] by (rule Cell_Count_pos)
      ultimately show ?thesis by (simp add: Cell_Single_iff_Count cnt_def)
    qed
    with none(1) Solve.prems(1) show ?thesis
      by (simp add: Board_Solve_none Board_Solved_spec)
  next
    case (some p)
    have at: "Board_At b (fst p) (snd p) = Inr (idx p)"
      using Board_At_valid [OF Solve.prems(1), of "fst p" "snd p"] some(2) by simp
    have "S (fst p, snd p) \<in> set (Cell_Digits (b ! idx p))"
      using agreesD [OF Solve.prems(4) some(2)] by (simp add: set_Cell_Digits)
    moreover have "\<forall>d \<in> set (Cell_Digits (b ! idx p)). Cell_IsSet (b ! idx (fst p, snd p)) d"
      by (simp add: set_Cell_Digits)
    ultimately have "\<exists>r. Board_Solve_guess b (fst p) (snd p) (Cell_Digits (b ! idx p)) = Inr (True, r)"
      using Solve.prems some(2) by (intro Solve.IH [OF some(1) at]) simp_all
    then show ?thesis by (simp add: Board_Solve_some [OF some(1) at])
  qed
next
  case (Nil b i j)
  then show ?case by simp
next
  case (Cons b i j d ds)
  from Board_Set_valid [OF Cons.prems(1,5), of d] obtain b1
    where b1: "Board_Set b i j d = Inr b1" "resolve b (i, j) d b1" "length b1 = 81" by blast
  from Board_Solve_total(1) [OF b1(3)] obtain ok1 b2 where
    s1: "Board_Solve b1 = Inr (ok1, b2)" by blast
  show ?case
  proof (cases ok1)
    case True
    with b1(1) s1 show ?thesis by (simp add: Board_Solve_guess_Cons)
  next
    case False
    have "d \<noteq> S (i, j)"
    proof
      assume d: "d = S (i, j)"
      let ?b0 = "b[idx (i, j) := Cell_Set (Cell_Clear (b ! idx (i, j))) d]"
      have "agrees ?b0 S"
        using Cons.prems(4,5) d Cons.prems(1) by (intro agrees_assign) simp_all
      then have "agrees b1 S"
        using b1(2) Cons.prems(1,5,3) by (intro resolve_eliminate_agrees(1) [of b "(i, j)" d b1])
      moreover have "within9 b1"
      proof -
        have "narrows b1 ?b0" using b1(2) by (rule resolve_eliminate_narrows)
        moreover have "narrows ?b0 b" using Cons.prems(7) by (intro narrows_assign) simp
        ultimately have "narrows b1 b" by (rule narrows_trans)
        then show ?thesis using Cons.prems(2) by (rule within9_narrows)
      qed
      ultimately have "\<exists>r. Board_Solve b1 = Inr (True, r)"
        using b1(3) Cons.prems(3) by (intro Cons.IH(1) [OF b1(1)])
      with s1 False show False by simp
    qed
    with Cons.prems(6) have "S (i, j) \<in> set ds" by auto
    moreover from s1 False have "Board_Solve b1 = Inr (False, b2)" by simp
    ultimately have "\<exists>r. Board_Solve_guess b i j ds = Inr (True, r)"
      using Cons.prems by (intro Cons.IH(2) [OF b1(1)]) simp_all
    with b1(1) s1 False show ?thesis by (simp add: Board_Solve_guess_Cons)
  qed
qed

subsection \<open>Sequences of assignments\<close>

lemma Board_Set_all_append:
  "Board_Set_all b (xs @ ys) =
     (case Board_Set_all b xs of Inl e \<Rightarrow> Inl e | Inr b' \<Rightarrow> Board_Set_all b' ys)"
  by (induction xs arbitrary: b) (auto split: sum.splits)

lemma Board_Set_all_total:
  assumes "length b = 81" "\<forall>(i, j, d) \<in> set xs. valid (i, j)"
  shows "\<exists>r. Board_Set_all b xs = Inr r \<and> length r = 81"
  using assms
proof (induction xs arbitrary: b)
  case Nil
  then show ?case by simp
next
  case (Cons x xs)
  obtain i j d where x: "x = (i, j, d)" by (cases x)
  with Cons.prems(2) have v: "valid (i, j)" by simp
  from Board_Set_valid [OF Cons.prems(1) v, of d] obtain b'
    where b': "Board_Set b i j d = Inr b'" "length b' = 81" by blast
  from Cons.IH [OF b'(2)] Cons.prems(2) b'(1) show ?case by (simp add: x)
qed

lemma Board_Set_all_propagated:
  assumes "length b = 81" "propagated b" "\<forall>(i, j, d) \<in> set xs. valid (i, j)"
  shows "\<exists>r. Board_Set_all b xs = Inr r \<and> length r = 81 \<and> propagated r"
  using assms
proof (induction xs arbitrary: b)
  case Nil
  then show ?case by simp
next
  case (Cons x xs)
  obtain i j d where x: "x = (i, j, d)" by (cases x)
  with Cons.prems(3) have v: "valid (i, j)" by simp
  from Board_Set_valid [OF Cons.prems(1) v, of d] obtain b'
    where b': "Board_Set b i j d = Inr b'" "resolve b (i, j) d b'" "length b' = 81" by blast
  have "propagated b'"
    using b'(2) Cons.prems(1) v Cons.prems(2) by (rule resolve_propagated)
  moreover have "\<forall>(i, j, d) \<in> set xs. valid (i, j)" using Cons.prems(3) by simp
  ultimately have "\<exists>r. Board_Set_all b' xs = Inr r \<and> length r = 81 \<and> propagated r"
    using b'(3) by (intro Cons.IH)
  with b'(1) show ?case by (simp add: x)
qed

lemma Board_Set_all_agrees:
  assumes "length b = 81" "agrees b S" "sudoku S"
    and "\<forall>(i, j, d) \<in> set xs. valid (i, j) \<and> S (i, j) = d"
  shows "\<exists>r. Board_Set_all b xs = Inr r \<and> agrees r S"
  using assms(1,2,4)
proof (induction xs arbitrary: b)
  case Nil
  then show ?case by simp
next
  case (Cons x xs)
  obtain i j d where x: "x = (i, j, d)" by (cases x)
  with Cons.prems(3) have v: "valid (i, j)" and S: "S (i, j) = d" by simp_all
  from Board_Set_valid [OF Cons.prems(1) v, of d] obtain b'
    where b': "Board_Set b i j d = Inr b'" "resolve b (i, j) d b'" "length b' = 81" by blast
  have "agrees (b[idx (i, j) := Cell_Set (Cell_Clear (b ! idx (i, j))) d]) S"
    using Cons.prems(2) v S Cons.prems(1) by (rule agrees_assign)
  then have "agrees b' S"
    using b'(2) Cons.prems(1) v assms(3) by (intro resolve_eliminate_agrees(1) [of b "(i, j)" d b'])
  from Cons.IH [OF b'(3) this] Cons.prems(3) b'(1) show ?case by (simp add: x)
qed

lemma narrows_assign_Empty:
  assumes "narrows b EmptyBoard" "valid p" "Cell_IsSet All_Cell d"
  shows "narrows (b[idx p := Cell_Set (Cell_Clear (b ! idx p)) d]) EmptyBoard"
proof -
  have l: "length b = 81" using narrows_length [OF assms(1)] by simp
  have "Cell_IsSet (EmptyBoard ! m) e"
    if "m < 81" "Cell_IsSet (b[idx p := Cell_Set (Cell_Clear (b ! idx p)) d] ! m) e" for m e
  proof (cases "m = idx p")
    case True
    with that l assms(2) have "e = d" by (simp add: Cell_IsSet_Set_Clear)
    with assms(3) that(1) show ?thesis by (simp add: EmptyBoard_replicate)
  next
    case False
    with that have "Cell_IsSet (b ! m) e" by simp
    with assms(1) that(1) show ?thesis by (auto dest: narrows_IsSet)
  qed
  with l show ?thesis by (simp add: narrows_def)
qed

lemma Board_Set_all_below:
  assumes "narrows b EmptyBoard"
    and "\<forall>(i, j, d) \<in> set xs. valid (i, j) \<and> Cell_IsSet All_Cell d"
  shows "\<exists>r. Board_Set_all b xs = Inr r \<and> narrows r EmptyBoard"
  using assms
proof (induction xs arbitrary: b)
  case Nil
  then show ?case by simp
next
  case (Cons x xs)
  obtain i j d where x: "x = (i, j, d)" by (cases x)
  with Cons.prems(2) have v: "valid (i, j)" and d: "Cell_IsSet All_Cell d" by simp_all
  have l: "length b = 81" using narrows_length [OF Cons.prems(1)] by simp
  from Board_Set_valid [OF l v, of d] obtain b'
    where b': "Board_Set b i j d = Inr b'" "resolve b (i, j) d b'" by blast
  have "narrows b' (b[idx (i, j) := Cell_Set (Cell_Clear (b ! idx (i, j))) d])"
    using b'(2) by (rule resolve_eliminate_narrows)
  then have "narrows b' EmptyBoard"
    using narrows_assign_Empty [OF Cons.prems(1) v d] by (rule narrows_trans)
  from Cons.IH [OF this] Cons.prems(2) b'(1) show ?case by (simp add: x)
qed

lemma Board_Set_all_untouched:
  assumes "Board_Set_all b xs = Inr r" "length b = 81" "\<forall>(i, j, d) \<in> set xs. valid (i, j)"
    and "valid p" "p \<notin> (\<lambda>(i, j, d). (i, j)) ` set xs" "Cell_IsSet (r ! idx p) e"
  shows "Cell_IsSet (b ! idx p) e"
  using assms(1,2,3,5)
proof (induction xs arbitrary: b)
  case Nil
  with assms(6) show ?case by simp
next
  case (Cons x xs)
  obtain i j d where x: "x = (i, j, d)" by (cases x)
  with Cons.prems(3,4) have v: "valid (i, j)" and ne: "p \<noteq> (i, j)" by auto
  from Board_Set_valid [OF Cons.prems(2) v, of d] obtain b'
    where b': "Board_Set b i j d = Inr b'" "resolve b (i, j) d b'" "length b' = 81" by blast
  from Cons.prems(1) b'(1) have "Board_Set_all b' xs = Inr r" by (simp add: x)
  moreover have "\<forall>(i, j, d) \<in> set xs. valid (i, j)" using Cons.prems(3) by simp
  moreover have "p \<notin> (\<lambda>(i, j, d). (i, j)) ` set xs" using Cons.prems(4) by simp
  ultimately have "Cell_IsSet (b' ! idx p) e" using b'(3) by (intro Cons.IH)
  moreover have "narrows b' (b[idx (i, j) := Cell_Set (Cell_Clear (b ! idx (i, j))) d])"
    using b'(2) by (rule resolve_eliminate_narrows)
  moreover have "idx p \<noteq> idx (i, j)" using ne assms(4) v by (simp add: idx_inj)
  ultimately show ?case
    using narrows_at [of b' "b[idx (i, j) := Cell_Set (Cell_Clear (b ! idx (i, j))) d]" p e]
      Cons.prems(2) assms(4) by simp
qed

lemma Cell_no_candidates: "(\<And>e. \<not> Cell_IsSet c e) \<Longrightarrow> c = 0"
  by (rule Cell_eqI) simp

lemma Board_Set_all_clash:
  assumes "length b = 81"
    and "\<forall>(i, j, d) \<in> set (B @ (qi, qj, d) # C). valid (i, j)"
    and "valid p" "related (qi, qj) p"
    and "p \<notin> (\<lambda>(i, j, d). (i, j)) ` set (B @ (qi, qj, d) # C)"
  shows "\<exists>r. Board_Set_all b ((fst p, snd p, d) # B @ (qi, qj, d) # C) = Inr r \<and>
             length r = 81 \<and> r ! idx p = 0"
proof -
  let ?q = "(qi, qj)"
  have vB: "\<forall>(i, j, d) \<in> set B. valid (i, j)" and vC: "\<forall>(i, j, d) \<in> set C. valid (i, j)"
    and vq: "valid ?q"
    using assms(2) by auto
  have nB: "p \<notin> (\<lambda>(i, j, d). (i, j)) ` set B" and nC: "p \<notin> (\<lambda>(i, j, d). (i, j)) ` set C"
    using assms(5) by (auto simp: image_Un)
  from Board_Set_valid [OF assms(1), of "fst p" "snd p" d] assms(3) obtain b1
    where b1: "Board_Set b (fst p) (snd p) d = Inr b1" "resolve b p d b1" "length b1 = 81" by auto
  have only_d: "e = d" if "Cell_IsSet (b1 ! idx p) e" for e
  proof -
    have "narrows b1 (b[idx p := Cell_Set (Cell_Clear (b ! idx p)) d])"
      using b1(2) by (rule resolve_eliminate_narrows)
    from narrows_at [OF this _ assms(3) that] assms(1,3) show ?thesis
      by (simp add: idx_less Cell_IsSet_Set_Clear)
  qed
  from Board_Set_all_total [OF b1(3) vB] obtain b2
    where b2: "Board_Set_all b1 B = Inr b2" "length b2 = 81" by blast
  from Board_Set_valid [OF b2(2) vq, of d] obtain b3
    where b3: "Board_Set b2 qi qj d = Inr b3" "resolve b2 ?q d b3" "length b3 = 81" by auto
  from Board_Set_all_total [OF b3(3) vC] obtain r
    where r: "Board_Set_all b3 C = Inr r" "length r = 81" by blast
  have "\<not> Cell_IsSet (r ! idx p) e" for e
  proof
    assume "Cell_IsSet (r ! idx p) e"
    with r(1) b3(3) vC assms(3) nC have e3: "Cell_IsSet (b3 ! idx p) e"
      by (intro Board_Set_all_untouched [of b3 C r p e])
    have "p \<noteq> ?q" using assms(4) by (auto simp: related_def)
    then have ne: "idx p \<noteq> idx ?q" using assms(3) vq by (simp add: idx_inj)
    have "narrows b3 (b2[idx ?q := Cell_Set (Cell_Clear (b2 ! idx ?q)) d])"
      using b3(2) by (rule resolve_eliminate_narrows)
    from narrows_at [OF this _ assms(3) e3] b2(2) ne have "Cell_IsSet (b2 ! idx p) e" by simp
    with b2(1) b1(3) vB assms(3) nB have "Cell_IsSet (b1 ! idx p) e"
      by (intro Board_Set_all_untouched [of b1 B b2 p e])
    then have "e = d" by (rule only_d)
    moreover have "p \<in> set (peers ?q)" using assms(3,4) vq by (simp add: set_peers)
    with resolve_cleared [OF b3(2) b2(2) vq] have "\<not> Cell_IsSet (b3 ! idx p) d" by blast
    ultimately show False using e3 by simp
  qed
  then have "r ! idx p = 0" by (rule Cell_no_candidates)
  moreover have "Board_Set_all b ((fst p, snd p, d) # B @ (qi, qj, d) # C) = Inr r"
    using b1(1) b2(1) b3(1) r(1) by (simp add: Board_Set_all_append)
  ultimately show ?thesis using r(2) by blast
qed

lemma Board_Solve_dead:
  assumes "length b = 81" "valid p" "b ! idx p = 0"
  shows "\<exists>r. Board_Solve b = Inr (False, r)"
proof -
  from Board_Solve_total(1) [OF assms(1)] obtain ok r where r: "Board_Solve b = Inr (ok, r)"
    by blast
  have "\<not> ok"
  proof
    assume ok
    with r have "Board_Solve b = Inr (True, r)" by simp
    from Board_Solve_sound(1) [OF this assms(1)]
    have n: "narrows r b" and s: "Cell_Single (r ! idx p)" using assms(2) by blast+
    have "\<not> Cell_IsSet (r ! idx p) e" for e
      using narrows_at [OF n assms(1,2), of e] assms(3) by auto
    then have "r ! idx p = 0" by (rule Cell_no_candidates)
    with s show False by simp
  qed
  with r show ?thesis by auto
qed

text \<open>
  Every board the program can reach holds at most 9 candidates in each cell, whatever the
  coordinates and digits passed to \<^verbatim>\<open>Set\<close>: the empty board has 9 in each, an assignment
  leaves at most one in its own cell, and everything else only removes candidates.
\<close>

lemma within9_EmptyBoard: "within9 EmptyBoard"
proof -
  have "Cell_Count All_Cell = 9" by code_simp
  then show ?thesis by (simp add: within9_def EmptyBoard_replicate)
qed

lemma within9_assign:
  assumes "within9 b"
  shows "within9 (b[k := Cell_Set (Cell_Clear (b ! k)) d])"
  unfolding within9_def
proof
  fix c assume "c \<in> set (b[k := Cell_Set (Cell_Clear (b ! k)) d])"
  then have "c = Cell_Set (Cell_Clear (b ! k)) d \<or> c \<in> set b"
    by (auto dest: set_update_subset_insert [THEN subsetD])
  then show "Cell_Count c \<le> 9"
  proof
    assume "c = Cell_Set (Cell_Clear (b ! k)) d"
    then show ?thesis using Cell_Count_Set_Clear [of "b ! k" d] by simp
  next
    assume "c \<in> set b"
    with assms show ?thesis by (simp add: within9_def)
  qed
qed

lemma Board_Set_within9:
  assumes "Board_Set b i j d = Inr r" "within9 b"
  shows "within9 r"
proof -
  from Board_Set_narrows [OF assms(1)] obtain k
    where "narrows r (b[k := Cell_Set (Cell_Clear (b ! k)) d])" by blast
  then show ?thesis using within9_assign [OF assms(2)] by (rule within9_narrows)
qed

lemma Board_Set_all_within9:
  assumes "Board_Set_all b xs = Inr r" "within9 b"
  shows "within9 r"
  using assms
proof (induction xs arbitrary: b)
  case Nil
  then show ?case by simp
next
  case (Cons x xs)
  obtain i j d where x: "x = (i, j, d)" by (cases x)
  with Cons.prems(1) obtain b' where b': "Board_Set b i j d = Inr b'"
    and rest: "Board_Set_all b' xs = Inr r" by (auto split: sum.splits)
  from b' Cons.prems(2) have "within9 b'" by (rule Board_Set_within9)
  with rest show ?case by (rule Cons.IH)
qed

lemma Board_Solve_within9:
  assumes "Board_Solve b = Inr (ok, r)" "length b = 81" "within9 b"
  shows "within9 r"
proof (cases ok)
  case True
  with assms(1) have "Board_Solve b = Inr (True, r)" by simp
  from Board_Solve_sound(1) [OF this assms(2)] have "narrows r b" by blast
  then show ?thesis using assms(3) by (rule within9_narrows)
next
  case False
  with assms(1) have "Board_Solve b = Inr (False, r)" by simp
  then have "r = b" by (rule Board_Solve_restores(1))
  with assms(3) show ?thesis by simp
qed

subsection \<open>Rows, columns and boxes of a solved board\<close>

definition digits :: "uint list" where
  "digits = [1, 2, 3, 4, 5, 6, 7, 8, 9]"

definition rows :: "pos list list" where
  "rows = map (\<lambda>i. map (\<lambda>j. (i, j)) [0..8]) [0..8]"

definition cols :: "pos list list" where
  "cols = map (\<lambda>j. map (\<lambda>i. (i, j)) [0..8]) [0..8]"

definition boxes :: "pos list list" where
  "boxes = concat (map (\<lambda>a. map (\<lambda>c.
     concat (map (\<lambda>x. map (\<lambda>y. (3 * a + x, 3 * c + y)) [0..2]) [0..2])) [0..2]) [0..2])"

definition units :: "pos list list" where
  "units = rows @ cols @ boxes"

lemma units_shape:
  "\<forall>u \<in> set units. length u = 9 \<and> distinct u \<and>
     (\<forall>p \<in> set u. valid p \<and> (\<forall>q \<in> set u. q \<noteq> p \<longrightarrow> related p q))"
  by code_simp

lemma bit_All_Cell: "bit All_Cell n \<longleftrightarrow> n < 9"
proof -
  have "All_Cell = mask 9" by (simp add: All_Cell_def Size_def mask_eq_exp_minus_1)
  moreover have "bit (mask 9 :: Cell) n \<longleftrightarrow> n < 9"
    by (simp only: bit_mask_iff) auto
  ultimately show ?thesis by (simp only:)
qed

lemma IsSet_All_Cell_digits:
  assumes "Cell_IsSet All_Cell e"
  shows "e \<in> set digits"
proof -
  define n where "n = unat (e - 1)"
  from assms have n: "n < 9" by (simp add: Cell_IsSet_iff bit_All_Cell n_def)
  have "e = 1 + of_nat n" by (simp add: n_def)
  moreover from n have "n \<in> {0, 1, 2, 3, 4, 5, 6, 7, 8}" by auto
  ultimately show ?thesis by (auto simp: digits_def)
qed

lemma digits_IsSet_All_Cell: "d \<in> set digits \<Longrightarrow> Cell_IsSet All_Cell d"
  by (auto simp: digits_def Cell_IsSet_iff bit_All_Cell)

lemma unit_once:
  assumes "propagated r" "\<forall>p. valid p \<longrightarrow> Cell_Single (r ! idx p)" "narrows r EmptyBoard"
    and u: "length u = 9" "distinct u" "\<forall>p \<in> set u. valid p"
      "\<forall>p \<in> set u. \<forall>q \<in> set u. q \<noteq> p \<longrightarrow> related p q"
    and d: "d \<in> set digits"
  shows "\<exists>!p. p \<in> set u \<and> Cell_Digit (r ! idx p) = d"
proof -
  let ?f = "\<lambda>p. Cell_Digit (r ! idx p)"
  have inj: "inj_on ?f (set u)"
  proof (rule inj_onI)
    fix p q assume pq: "p \<in> set u" "q \<in> set u" "?f p = ?f q"
    show "p = q"
    proof (rule ccontr)
      assume "p \<noteq> q"
      with pq u(4) have rel: "related p q" by auto
      from pq(1,2) u(3) have v: "valid p" "valid q" by auto
      with assms(2) have "Cell_Single (r ! idx p)" "Cell_Single (r ! idx q)" by blast+
      with assms(1) v rel have "?f p \<noteq> ?f q"
        by (intro propagated_distinct)
      with pq(3) show False by simp
    qed
  qed
  have sub: "?f ` set u \<subseteq> set digits"
  proof
    fix e assume "e \<in> ?f ` set u"
    then obtain p where p: "p \<in> set u" "e = ?f p" by blast
    with u(3) have vp: "valid p" by simp
    with assms(2) have "Cell_Single (r ! idx p)" by blast
    then have "Cell_IsSet (r ! idx p) e" by (simp add: p(2) Cell_Single_IsSet_iff)
    with assms(3) vp have "Cell_IsSet (EmptyBoard ! idx p) e"
      by (auto dest: narrows_at)
    with vp show "e \<in> set digits" by (simp add: EmptyBoard_nth IsSet_All_Cell_digits)
  qed
  have "card (?f ` set u) = card (set u)" using inj by (rule card_image)
  also have "\<dots> = 9" using u(1,2) by (simp add: distinct_card)
  also have "\<dots> = card (set digits)" by (simp add: digits_def)
  finally have "?f ` set u = set digits" using sub by (intro card_subset_eq) simp_all
  with d have "d \<in> ?f ` set u" by simp
  then obtain p where p: "p \<in> set u" "?f p = d" by (rule imageE) simp
  show ?thesis
  proof (rule ex1I [of _ p])
    show "p \<in> set u \<and> ?f p = d" using p by simp
  next
    fix q assume "q \<in> set u \<and> ?f q = d"
    with p inj show "q = p" by (auto dest: inj_onD)
  qed
qed

section \<open>The calls an assignment makes\<close>

text \<open>
  The calls of \<^verbatim>\<open>Set\<close> that one call of \<^verbatim>\<open>Set\<close> makes: the call itself and, in the order in
  which they happen, all the recursive calls below it, each with the coordinates and the
  digit it is given.  The definition follows \<open>Board_Set\<close> and \<open>Board_Set_range\<close> clause by
  clause; the boards between the loops and after a recursive call are those computed by
  \<open>Board_Set\<close> and \<open>Board_Set_range\<close> themselves.
\<close>

function Board_Set_calls :: "Board \<Rightarrow> int \<Rightarrow> int \<Rightarrow> uint \<Rightarrow> (int \<times> int \<times> uint) list"
  and Board_Set_range_calls :: "Board \<Rightarrow> uint \<Rightarrow> visit list \<Rightarrow> (int \<times> int \<times> uint) list"
where
  "Board_Set_calls b i j d = (i, j, d) #
     (case Board_At b i j of
        Inl e \<Rightarrow> []
      | Inr k \<Rightarrow>
          Board_Set_range_calls (b[k := Cell_Set (Cell_Clear (b ! k)) d]) d
            (map (\<lambda>(jj, c). (j \<noteq> jj, (i, jj), c)) (Board_Row b i)) @
          (case Board_Set_range (b[k := Cell_Set (Cell_Clear (b ! k)) d]) d
                  (map (\<lambda>(jj, c). (j \<noteq> jj, (i, jj), c)) (Board_Row b i)) of
             Inl e \<Rightarrow> []
           | Inr b1 \<Rightarrow>
               Board_Set_range_calls b1 d
                 (map (\<lambda>(ii, c). (i \<noteq> ii, (ii, j), c)) (Board_Col b j)) @
               (case Board_Set_range b1 d
                       (map (\<lambda>(ii, c). (i \<noteq> ii, (ii, j), c)) (Board_Col b j)) of
                  Inl e \<Rightarrow> []
                | Inr b2 \<Rightarrow>
                    Board_Set_range_calls b2 d
                      (map (\<lambda>(xy, c). (True, xy, c)) (Board_Box b i j)))))"
| "Board_Set_range_calls b d [] = []"
| "Board_Set_range_calls b d ((g, (x, y), c) # rest) =
     (case c of
        Inl e \<Rightarrow> []
      | Inr k \<Rightarrow>
          if g \<and> Cell_IsSet (b ! k) d then
            (let b' = b[k := Cell_Drop (b ! k) d]
             in if Cell_Single (b' ! k) then
                  Board_Set_calls b' x y (Cell_Digit (b' ! k)) @
                  (case Board_Set b' x y (Cell_Digit (b' ! k)) of
                     Inl e \<Rightarrow> []
                   | Inr b'' \<Rightarrow> Board_Set_range_calls b'' d rest)
                else Board_Set_range_calls b' d rest)
          else Board_Set_range_calls b d rest)"
  by pat_completeness auto

lemmas Board_Set_weight = Board_Set_partial_weight [OF Board_Set_terminates [THEN spec]]

lemma Board_Set_calls_terminates: "All Board_Set_calls_Board_Set_range_calls_dom"
proof (relation "inv_image (lenlex less_than) Board_Set_measure", goal_cases)
  case 1
  show ?case by (simp add: wf_lenlex)
next
  case (2 b i j d k)
  have "stray (b[k := Cell_Set (Cell_Clear (b ! k)) d])
          (map (\<lambda>(jj, c). (j \<noteq> jj, (i, jj), c)) (Board_Row b i)) = 0"
    by (simp add: stray_length_cong [of "b[k := Cell_Set (Cell_Clear (b ! k)) d]" b])
  with 2 show ?case
    by (simp add: Board_Set_measure_def Cons_lenlex_iff)
next
  case (3 b i j d k b1)
  let ?b0 = "b[k := Cell_Set (Cell_Clear (b ! k)) d]"
  have s0: "stray ?b0 (map (\<lambda>(jj, c). (j \<noteq> jj, (i, jj), c)) (Board_Row b i)) = 0"
    by (simp add: stray_length_cong [of ?b0 b])
  from Board_Set_weight(2) [OF 3(2)] s0
  have l1: "length b1 = length b" and w1: "weight b1 \<le> weight ?b0" by simp_all
  have "stray b1 (map (\<lambda>(ii, c). (i \<noteq> ii, (ii, j), c)) (Board_Col b j)) = 0"
    by (simp add: stray_length_cong [OF l1])
  with 3(1) w1 show ?case
    by (auto simp: Board_Set_measure_def Cons_lenlex_iff)
next
  case (4 b i j d k b1 b2)
  let ?b0 = "b[k := Cell_Set (Cell_Clear (b ! k)) d]"
  have s0: "stray ?b0 (map (\<lambda>(jj, c). (j \<noteq> jj, (i, jj), c)) (Board_Row b i)) = 0"
    by (simp add: stray_length_cong [of ?b0 b])
  from Board_Set_weight(2) [OF 4(2)] s0
  have l1: "length b1 = length b" and w1: "weight b1 \<le> weight ?b0" by simp_all
  have s1: "stray b1 (map (\<lambda>(ii, c). (i \<noteq> ii, (ii, j), c)) (Board_Col b j)) = 0"
    by (simp add: stray_length_cong [OF l1])
  from Board_Set_weight(2) [OF 4(3)] s1 l1
  have l2: "length b2 = length b" and w2: "weight b2 \<le> weight b1" by simp_all
  have "stray b2 (map (Pair True) (Board_Box b i j)) = 0"
    by (simp add: stray_length_cong [OF l2])
  with 4(1) w1 w2 show ?case
    by (auto simp: Board_Set_measure_def Cons_lenlex_iff)
next
  case (5 b d g x y c rest k b')
  let ?b' = "b[k := Cell_Drop (b ! k) d]"
  have l': "length ?b' = length b" by simp
  show ?case
  proof (cases "stray b ((g, (x, y), c) # rest) = 0")
    case False
    then show ?thesis by (simp add: Board_Set_measure_def Cons_lenlex_iff)
  next
    case True
    then have cxy: "Board_At b x y = Inr k" using 5(1)
      by (auto simp: stray_Cons split: if_splits)
    then have kl: "k < length b" by (rule Board_At_less_length)
    have at': "Board_At ?b' x y = Inr k"
      using cxy by (simp add: Board_At_length_cong [OF l'])
    have "?b'[k := Cell_Set (Cell_Clear (?b' ! k)) (Cell_Digit (?b' ! k))] = ?b'"
      using 5(3,4) kl by (simp add: Cell_Set_Clear_Digit)
    moreover have "weight ?b' < weight b"
      using kl 5(2) by (intro weight_Drop_less) auto
    ultimately show ?thesis
      using True at' 5(3) by (simp add: Board_Set_measure_def Cons_lenlex_iff)
  qed
next
  case (6 b d g x y c rest k b' b'')
  let ?b' = "b[k := Cell_Drop (b ! k) d]"
  have l': "length ?b' = length b" by simp
  from Board_Set_weight(1) [OF 6(5) [unfolded 6(3)]]
  have l'': "length b'' = length b"
    and w'': "\<And>k'. Board_At ?b' x y = Inr k' \<Longrightarrow>
               weight b'' \<le> weight (?b'[k' := Cell_Set (Cell_Clear (?b' ! k')) (Cell_Digit (?b' ! k))])"
    by (simp_all add: 6(3))
  show ?case
  proof (cases "stray b ((g, (x, y), c) # rest) = 0")
    case False
    have sr'': "stray b'' rest = stray b rest" by (rule stray_length_cong [OF l''])
    consider "stray b'' rest < stray b ((g, (x, y), c) # rest)"
      | "stray b'' rest = stray b ((g, (x, y), c) # rest)" "c = Board_At b x y"
      using sr'' by (cases "c = Board_At b x y") (simp_all add: stray_Cons)
    then show ?thesis
    proof cases
      case 1
      then show ?thesis by (simp add: Board_Set_measure_def Cons_lenlex_iff)
    next
      case 2
      then have cxy: "Board_At b x y = Inr k" using 6(1) by simp
      then have kl: "k < length b" by (rule Board_At_less_length)
      have at': "Board_At ?b' x y = Inr k"
        using cxy by (simp add: Board_At_length_cong [OF l'])
      from w'' [OF at'] have "weight b'' \<le> weight ?b'"
        using kl 6(3,4) by (simp add: Cell_Set_Clear_Digit)
      moreover have "weight ?b' < weight b"
        using kl 6(2) by (intro weight_Drop_less) auto
      ultimately show ?thesis
        using 2 by (simp add: Board_Set_measure_def Cons_lenlex_iff)
    qed
  next
    case True
    then have cxy: "Board_At b x y = Inr k" and sr: "stray b rest = 0" using 6(1)
      by (auto simp: stray_Cons split: if_splits)
    then have kl: "k < length b" by (auto dest: Board_At_less_length)
    have at': "Board_At ?b' x y = Inr k"
      using cxy by (simp add: Board_At_length_cong [OF l'])
    from w'' [OF at'] have "weight b'' \<le> weight ?b'"
      using kl 6(3,4) by (simp add: Cell_Set_Clear_Digit)
    moreover have "weight ?b' < weight b"
      using kl 6(2) by (intro weight_Drop_less) auto
    moreover have "stray b'' rest = 0"
      using sr by (simp add: stray_length_cong [OF l''])
    ultimately show ?thesis
      using True by (simp add: Board_Set_measure_def Cons_lenlex_iff)
  qed
next
  case (7 b d g x y c rest k b')
  let ?b' = "b[k := Cell_Drop (b ! k) d]"
  have l': "length ?b' = length b" by simp
  have sr: "stray ?b' rest = stray b rest" by (rule stray_length_cong [OF l'])
  show ?case
  proof (cases "c = Board_At b x y")
    case False
    then show ?thesis
      using sr 7(3) by (simp add: Board_Set_measure_def Cons_lenlex_iff stray_Cons)
  next
    case True
    then have "k < length b" using 7(1) by (auto dest: Board_At_less_length [OF sym])
    then have "weight ?b' < weight b"
      using 7(2) by (intro weight_Drop_less) auto
    then show ?thesis
      using sr True 7(3) by (simp add: Board_Set_measure_def Cons_lenlex_iff stray_Cons)
  qed
next
  case (8 b d g x y c rest k)
  then show ?case
    by (simp add: Board_Set_measure_def Cons_lenlex_iff stray_Cons)
qed

termination Board_Set_calls
  by (rule Board_Set_calls_terminates)

declare Board_Set_calls.simps [simp del]

lemma Board_Set_range_narrows:
  assumes "Board_Set_range b d vs = Inr r" "length b = 81" "lawful vs"
  shows "narrows r b"
proof -
  from Board_Set_resolve(2) [OF assms(2,3), of d] assms(1)
  have "eliminate b d (targets vs) r" by auto
  then show ?thesis by (rule resolve_eliminate_narrows(2))
qed

lemma only_narrows:
  assumes "narrows r b" "length b = 81" "valid p" "\<forall>e. Cell_IsSet (b ! idx p) e \<longrightarrow> e = d"
  shows "\<forall>e. Cell_IsSet (r ! idx p) e \<longrightarrow> e = d"
  using narrows_at [OF assms(1,2,3)] assms(4) by blast

lemma gone_narrows:
  assumes "narrows r b" "length b = 81" "valid p" "\<not> Cell_IsSet (b ! idx p) d"
  shows "\<not> Cell_IsSet (r ! idx p) d"
  using narrows_at [OF assms(1,2,3)] assms(4) by blast

lemma peer_call_head:
  assumes "valid p" "valid (x, y)"
  shows "(\<exists>q \<in> set (peers p). (fst q, snd q, d) = (x, y, e)) \<longleftrightarrow> e = d \<and> p \<in> set (peers (x, y))"
proof
  assume "\<exists>q \<in> set (peers p). (fst q, snd q, d) = (x, y, e)"
  then obtain q where "q \<in> set (peers p)" "q = (x, y)" "e = d" by auto
  with assms(1) show "e = d \<and> p \<in> set (peers (x, y))" by (auto dest: peers_sym)
next
  assume "e = d \<and> p \<in> set (peers (x, y))"
  with assms(2) have "(x, y) \<in> set (peers p)" "e = d" by (auto dest: peers_sym)
  then show "\<exists>q \<in> set (peers p). (fst q, snd q, d) = (x, y, e)"
    by (intro bexI [of _ "(x, y)"]) simp_all
qed

text \<open>
  Fix a cell \<open>p\<close> that holds no candidate but \<open>d\<close>.  A call of \<^verbatim>\<open>Set\<close> on another cell, and
  a loop of such a call, leave \<open>p\<close> without \<open>d\<close> exactly when it was without \<open>d\<close> before, or
  the loop itself is one for \<open>d\<close> that visits \<open>p\<close>, or \<^verbatim>\<open>Set\<close> is called with \<open>d\<close> on some
  peer of \<open>p\<close>.
\<close>

lemma Board_Set_calls_gone:
  fixes p :: pos and d :: uint
  assumes vp: "valid p"
  shows "length b = 81 \<Longrightarrow> valid (x, y) \<Longrightarrow> (x, y) \<noteq> p \<Longrightarrow>
           \<forall>e'. Cell_IsSet (b ! idx p) e' \<longrightarrow> e' = d \<Longrightarrow> Board_Set b x y e = Inr r \<Longrightarrow>
           (\<not> Cell_IsSet (r ! idx p) d) =
           (\<not> Cell_IsSet (b ! idx p) d \<or>
            (\<exists>q \<in> set (peers p). (fst q, snd q, d) \<in> set (Board_Set_calls b x y e)))"
    and "length b = 81 \<Longrightarrow> lawful vs \<Longrightarrow>
           \<forall>e'. Cell_IsSet (b ! idx p) e' \<longrightarrow> e' = d \<Longrightarrow> Board_Set_range b e vs = Inr r \<Longrightarrow>
           (\<not> Cell_IsSet (r ! idx p) d) =
           (\<not> Cell_IsSet (b ! idx p) d \<or> (e = d \<and> p \<in> set (targets vs)) \<or>
            (\<exists>q \<in> set (peers p). (fst q, snd q, d) \<in> set (Board_Set_range_calls b e vs)))"
proof (induction b x y e and b e vs arbitrary: r and r
    rule: Board_Set_calls_Board_Set_range_calls.induct)
  case (1 b i j e)
  let ?k = "idx (i, j)"
  let ?b0 = "b[?k := Cell_Set (Cell_Clear (b ! ?k)) e]"
  let ?rows = "map (\<lambda>(jj, c). (j \<noteq> jj, (i, jj), c)) (Board_Row b i)"
  let ?cols = "map (\<lambda>(ii, c). (i \<noteq> ii, (ii, j), c)) (Board_Col b j)"
  let ?box = "map (\<lambda>(xy, c). (True, xy, c)) (Board_Box b i j)"
  note len = \<open>length b = 81\<close> and vij = \<open>valid (i, j)\<close> and ne = \<open>(i, j) \<noteq> p\<close>
    and only = \<open>\<forall>e'. Cell_IsSet (b ! idx p) e' \<longrightarrow> e' = d\<close> and res = \<open>Board_Set b i j e = Inr r\<close>
  have at: "Board_At b i j = Inr ?k" using len vij by (rule Board_At_valid)
  have l0: "length ?b0 = 81" using len by simp
  have kp: "?k \<noteq> idx p" using ne idx_inj [OF vij vp] by simp
  then have same: "?b0 ! idx p = b ! idx p" by simp
  have only0: "\<forall>e'. Cell_IsSet (?b0 ! idx p) e' \<longrightarrow> e' = d" using only same by simp
  from res at obtain b1 b2 where b1: "Board_Set_range ?b0 e ?rows = Inr b1"
    and b2: "Board_Set_range b1 e ?cols = Inr b2"
    and r: "Board_Set_range b2 e ?box = Inr r"
    by (subst (asm) Board_Set.simps) (auto split: sum.splits)
  have lw1: "lawful ?rows" using len vij by (rule lawful_Row)
  have lw2: "lawful ?cols" using len vij by (rule lawful_Col)
  have lw3: "lawful ?box" using len vij by (rule lawful_Box)
  have n1: "narrows b1 ?b0" using b1 l0 lw1 by (rule Board_Set_range_narrows)
  have l1: "length b1 = 81" using narrows_length [OF n1] l0 by simp
  have only1: "\<forall>e'. Cell_IsSet (b1 ! idx p) e' \<longrightarrow> e' = d"
    using n1 l0 vp only0 by (rule only_narrows)
  have n2: "narrows b2 b1" using b2 l1 lw2 by (rule Board_Set_range_narrows)
  have l2: "length b2 = 81" using narrows_length [OF n2] l1 by simp
  have only2: "\<forall>e'. Cell_IsSet (b2 ! idx p) e' \<longrightarrow> e' = d"
    using n2 l1 vp only1 by (rule only_narrows)
  note s1 = "1.IH"(1) [OF at l0 lw1 only0 b1, unfolded targets_Row same]
  note s2 = "1.IH"(2) [OF at b1 l1 lw2 only1 b2, unfolded targets_Col]
  note s3 = "1.IH"(3) [OF at b1 b2 l2 lw3 only2 r, unfolded targets_Box [OF vij]]
  have calls: "Board_Set_calls b i j e =
      (i, j, e) # Board_Set_range_calls ?b0 e ?rows @ Board_Set_range_calls b1 e ?cols @
        Board_Set_range_calls b2 e ?box"
    using at b1 b2 by (subst Board_Set_calls.simps) simp
  have head: "(\<exists>q \<in> set (peers p). (fst q, snd q, d) = (i, j, e)) \<longleftrightarrow>
      e = d \<and> p \<in> set (peers (i, j))"
    using vp vij by (rule peer_call_head)
  show ?case
    unfolding s3 s2 s1 calls using head by (auto simp: peers_def)
next
  case (2 b e)
  then show ?case by (simp add: targets_def)
next
  case (3 b e g x y c rest)
  note len = \<open>length b = 81\<close> and only = \<open>\<forall>e'. Cell_IsSet (b ! idx p) e' \<longrightarrow> e' = d\<close>
    and res = \<open>Board_Set_range b e ((g, (x, y), c) # rest) = Inr r\<close>
  from \<open>lawful ((g, (x, y), c) # rest)\<close>
  have v: "valid (x, y)" and c: "c = Inr (idx (x, y))" and lr: "lawful rest"
    by (simp_all add: lawful_Cons)
  let ?k = "idx (x, y)"
  let ?b' = "b[?k := Cell_Drop (b ! ?k) e]"
  have l': "length ?b' = 81" using len by simp
  have n': "narrows ?b' b" by (rule narrows_Drop)
  have only': "\<forall>e'. Cell_IsSet (?b' ! idx p) e' \<longrightarrow> e' = d"
    using n' len vp only by (rule only_narrows)
  have kp: "?k = idx p \<longleftrightarrow> (x, y) = p" using v vp by (rule idx_inj)
  have kl: "?k < length b" using idx_less [OF v] len by simp
  show ?case
  proof (cases "g \<and> Cell_IsSet (b ! ?k) e")
    case False
    with res c have r: "Board_Set_range b e rest = Inr r" by auto
    have calls: "Board_Set_range_calls b e ((g, (x, y), c) # rest) = Board_Set_range_calls b e rest"
      using False c by auto
    have "\<not> Cell_IsSet (b ! idx p) d" if "g" "(x, y) = p" "e = d"
      using False that by auto
    then show ?thesis
      unfolding "3.IH"(4) [OF c False len lr only r] calls
      by (auto simp: targets_Cons)
  next
    case True
    have gone': "\<not> Cell_IsSet (?b' ! idx p) d \<longleftrightarrow> \<not> Cell_IsSet (b ! idx p) d \<or> (e = d \<and> (x, y) = p)"
    proof (cases "(x, y) = p")
      case True
      then show ?thesis using kl by (auto simp: Cell_IsSet_Drop)
    next
      case False
      with kp show ?thesis by simp
    qed
    show ?thesis
    proof (cases "Cell_Single (?b' ! ?k)")
      case False
      with res c True have r: "Board_Set_range ?b' e rest = Inr r" by (simp add: Let_def)
      have calls: "Board_Set_range_calls b e ((g, (x, y), c) # rest) = Board_Set_range_calls ?b' e rest"
        using True False c by (simp add: Let_def)
      show ?thesis
        unfolding "3.IH"(3) [OF c True refl False l' lr only' r] calls gone'
        using True by (auto simp: targets_Cons)
    next
      case single: True
      let ?e = "Cell_Digit (?b' ! ?k)"
      have ne: "(x, y) \<noteq> p"
      proof
        assume xy: "(x, y) = p"
        from single have "?b' ! ?k \<noteq> 0" by auto
        then have "Cell_IsSet (?b' ! ?k) ?e" by (rule Cell_IsSet_Digit)
        then have "Cell_IsSet (b ! ?k) ?e" "?e \<noteq> e" using kl by (simp_all add: Cell_IsSet_Drop)
        moreover have "Cell_IsSet (b ! ?k) e" using True by simp
        ultimately show False using only xy by auto
      qed
      from res c True single obtain b'' where b'': "Board_Set ?b' x y ?e = Inr b''"
        and r: "Board_Set_range b'' e rest = Inr r"
        by (auto simp: Let_def split: sum.splits)
      have calls: "Board_Set_range_calls b e ((g, (x, y), c) # rest) =
          Board_Set_calls ?b' x y ?e @ Board_Set_range_calls b'' e rest"
        using True single c b'' by (simp add: Let_def)
      have l'': "length b'' = 81" using Board_Set_length [OF b''] l' by simp
      from Board_Set_narrows [OF b''] obtain k' where k': "Board_At ?b' x y = Inr k'"
        and nk: "narrows b'' (?b'[k' := Cell_Set (Cell_Clear (?b' ! k')) ?e])" by blast
      have "k' = ?k" using k' Board_At_valid [OF l' v] by simp
      have n'': "narrows b'' ?b'"
        using nk unfolding \<open>k' = ?k\<close> single_reset [OF single] .
      have only'': "\<forall>e'. Cell_IsSet (b'' ! idx p) e' \<longrightarrow> e' = d"
        using n'' l' vp only' by (rule only_narrows)
      note s1 = "3.IH"(1) [OF c True refl single l' v ne only' b'']
      note s2 = "3.IH"(2) [OF c True refl single b'' l'' lr only'' r]
      show ?thesis
        unfolding s2 s1 calls gone' using True ne by (auto simp: targets_Cons)
    qed
  qed
qed

section \<open>The claims about the board\<close>

subsection \<open>Claims about the propagating assignment\<close>

lemma narrowed_singleton:
  assumes "\<And>e. Cell_IsSet c e \<Longrightarrow> Cell_IsSet (Cell_Set (Cell_Clear c0) d) e"
  shows "c = Cell_Set (Cell_Clear c0) d \<or> c = 0"
proof (cases "Cell_IsSet c d")
  case True
  have "c = Cell_Set (Cell_Clear c0) d"
  proof (rule Cell_eqI)
    fix e
    show "Cell_IsSet c e \<longleftrightarrow> Cell_IsSet (Cell_Set (Cell_Clear c0) d) e"
      using assms [of e] assms [OF True] True by (auto simp: Cell_IsSet_Set_Clear)
  qed
  then show ?thesis ..
next
  case False
  have "c = 0"
  proof (rule Cell_eqI)
    fix e
    show "Cell_IsSet c e \<longleftrightarrow> Cell_IsSet 0 e"
      using assms [of e] False by (auto simp: Cell_IsSet_Set_Clear)
  qed
  then show ?thesis ..
qed

text \<open>
  Claim C1.  On every board, for in-range coordinates and every digit (in particular every
  digit 1..9), \<^verbatim>\<open>Board.Set\<close> does what the specification describes: it first
  replaces the cell's candidates by the one digit, then visits the peers in the row, the
  column and the box; a peer that allows the digit loses it, and a peer left with exactly
  one candidate is assigned that candidate by the same operation, cascading.  That process
  is the relation \<open>resolve\<close>; it determines its result, and \<^verbatim>\<open>Board.Set\<close> returns
  exactly that board.  The only result is the board: no outcome signals an emptied cell.
\<close>

theorem Board_Set_is_resolve:
  assumes "length b = Size * Size" and "valid (i, j)"
  shows "\<exists>r. Board_Set b i j d = Inr r \<and> resolve b (i, j) d r \<and>
             (\<forall>r'. resolve b (i, j) d r' \<longrightarrow> r' = r)"
proof -
  from assms(1) have l: "length b = 81" by (simp add: Size_def)
  from Board_Set_valid [OF l assms(2), of d] obtain r
    where r: "Board_Set b i j d = Inr r" "resolve b (i, j) d r" by blast
  moreover have "r' = r" if "resolve b (i, j) d r'" for r'
    using r(2) that by (rule resolve_eliminate_deterministic(1))
  ultimately show ?thesis by blast
qed

theorem Board_Set_is_resolve_witness:
  "\<exists>r. Board_Set ((replicate 81 All_Cell)[1 := 3, 2 := 3]) 0 0 1 = Inr r \<and>
       resolve ((replicate 81 All_Cell)[1 := 3, 2 := 3]) (0, 0) 1 r \<and> r ! 2 = 0"
proof -
  let ?b = "(replicate 81 All_Cell)[1 := 3, 2 := 3]"
  have "length ?b = Size * Size" by (simp add: Size_def)
  moreover have "valid (0, 0)" by (simp add: valid_def)
  ultimately obtain r where r: "Board_Set ?b 0 0 1 = Inr r" "resolve ?b (0, 0) 1 r"
    using Board_Set_is_resolve [of ?b 0 0 1] by blast
  have "Board_Set ?b 0 0 1 =
    Inr [0, 2, 0, 508, 508, 508, 508, 508, 508, 508, 508, 508, 511, 511, 511,
      511, 511, 511, 508, 508, 508, 511, 511, 511, 511, 511, 511, 510, 509,
      510, 511, 511, 511, 511, 511, 511, 510, 509, 510, 511, 511, 511, 511,
      511, 511, 510, 509, 510, 511, 511, 511, 511, 511, 511, 510, 509, 510,
      511, 511, 511, 511, 511, 511, 510, 509, 510, 511, 511, 511, 511, 511,
      511, 510, 509, 510, 511, 511, 511, 511, 511, 511]"
    by code_simp
  with r(1) have "r ! 2 = 0" by simp
  with r show ?thesis by blast
qed

text \<open>
  Claim C3.  Start from \<^verbatim>\<open>EmptyBoard()\<close> and apply any finite sequence of assignments
  at in-range coordinates (any digits, in particular 1..9).  After each of the calls, that
  is after every prefix of the sequence, no two distinct cells that share a row, a column
  or a 3x3 box are both Single with the same digit.
\<close>

theorem Board_Set_all_no_duplicates:
  assumes "\<forall>(i, j, d) \<in> set xs. valid (i, j)"
  shows "\<exists>r. Board_Set_all EmptyBoard (take n xs) = Inr r \<and>
           (\<forall>p q. valid p \<and> valid q \<and> related p q \<and>
                  Cell_Single (r ! idx p) \<and> Cell_Single (r ! idx q) \<longrightarrow>
                  Cell_Digit (r ! idx p) \<noteq> Cell_Digit (r ! idx q))"
proof -
  have "\<forall>(i, j, d) \<in> set (take n xs). valid (i, j)"
    using assms by (auto dest: in_set_takeD)
  from Board_Set_all_propagated [OF length_EmptyBoard propagated_EmptyBoard this]
  obtain r where r: "Board_Set_all EmptyBoard (take n xs) = Inr r" "propagated r" by blast
  from r(2) have "Cell_Digit (r ! idx p) \<noteq> Cell_Digit (r ! idx q)"
    if "valid p" "valid q" "related p q" "Cell_Single (r ! idx p)" "Cell_Single (r ! idx q)" for p q
    using that by (intro propagated_distinct)
  with r(1) show ?thesis by blast
qed

theorem Board_Set_all_no_duplicates_witness:
  "\<exists>r. Board_Set_all EmptyBoard (take 2 [(0, 0, 8), (0, 1, 8), (4, 4, 8)]) = Inr r \<and>
       (\<forall>p q. valid p \<and> valid q \<and> related p q \<and>
              Cell_Single (r ! idx p) \<and> Cell_Single (r ! idx q) \<longrightarrow>
              Cell_Digit (r ! idx p) \<noteq> Cell_Digit (r ! idx q))"
  by (rule Board_Set_all_no_duplicates) (simp add: valid_def)

text \<open>
  Claim C4.  A board is 81 cells, each a set of digits out of 1..9, so each holds at most 9
  candidates; every board the program reaches is of this kind (\<open>Board_Set_all_within9\<close>,
  \<open>Board_Solve_within9\<close>).  On every such board \<^verbatim>\<open>Lowest\<close> returns \<open>ok = true\<close> exactly
  when some cell has more than one candidate; it then returns the coordinates of a cell
  whose candidate count is the smallest count above 1, and among the cells with that count
  the first in row-major order.  Cells with no candidate or one candidate never count.
\<close>

theorem Board_Lowest_first_minimum:
  assumes "length b = Size * Size" and "\<forall>c \<in> set b. Cell_Count c \<le> int Size"
  shows "\<exists>i j ok. Board_Lowest b = Inr (i, j, ok) \<and>
           (ok \<longleftrightarrow> (\<exists>p. valid p \<and> 1 < Cell_Count (b ! idx p))) \<and>
           (ok \<longrightarrow> valid (i, j) \<and> 1 < Cell_Count (b ! idx (i, j)) \<and>
              (\<forall>p. valid p \<and> 1 < Cell_Count (b ! idx p) \<longrightarrow>
                 Cell_Count (b ! idx (i, j)) \<le> Cell_Count (b ! idx p) \<and>
                 (Cell_Count (b ! idx p) = Cell_Count (b ! idx (i, j)) \<longrightarrow>
                    i < fst p \<or> (i = fst p \<and> j \<le> snd p))))"
proof -
  from assms have l: "length b = 81" and c9: "\<forall>c \<in> set b. Cell_Count c \<le> 9"
    by (simp_all add: Size_def)
  note imp = improves_iff [OF l c9]
  show ?thesis
  proof (cases "improves b Board_cells 10")
    case True
    with Board_Lowest_spec [OF l] obtain p' where
      *: "Board_Lowest b = Inr (fst p', snd p', True)" "1 < cnt b p'" "first_min b Board_cells p'"
      by auto
    have "p' \<in> set Board_cells" using *(3) by (rule first_min_mem)
    then have v': "valid p'" by (simp add: set_Board_cells)
    have "cnt b p' \<le> cnt b p \<and>
          (cnt b p = cnt b p' \<longrightarrow> fst p' < fst p \<or> (fst p' = fst p \<and> snd p' \<le> snd p))"
      if "valid p" "1 < cnt b p" for p
      using first_min_Board_cells [OF *(3) that] by simp
    with * v' True imp show ?thesis
      unfolding cnt_def by (intro exI [of _ "fst p'"] exI [of _ "snd p'"] exI [of _ True]) simp
  next
    case False
    with Board_Lowest_spec [OF l] have "Board_Lowest b = Inr (0, 0, False)" by simp
    with False imp show ?thesis
      unfolding cnt_def by (intro exI [of _ 0] exI [of _ False]) simp
  qed
qed

theorem Board_Lowest_first_minimum_witness:
  "\<exists>i j ok. Board_Lowest ((replicate 81 All_Cell)[4 := 7, 11 := 3, 13 := 5, 80 := 1]) = Inr (i, j, ok) \<and>
     ok \<and> i = 1 \<and> j = 2 \<and> valid (i, j)"
proof -
  let ?b = "(replicate 81 All_Cell)[4 := 7, 11 := 3, 13 := 5, 80 := 1]"
  have 1: "length ?b = Size * Size" by (simp add: Size_def)
  have 2: "\<forall>c \<in> set ?b. Cell_Count c \<le> int Size" by code_simp
  from Board_Lowest_first_minimum [OF 1 2] obtain i j ok where
    *: "Board_Lowest ?b = Inr (i, j, ok)" "ok \<longrightarrow> valid (i, j)" by blast
  have "Board_Lowest ?b = Inr (1, 2, True)" by code_simp
  with * have "ok" "i = 1" "j = 2" by simp_all
  with * show ?thesis by blast
qed

text \<open>
  Claim C2.  On every board (81 cells), \<^verbatim>\<open>Solve\<close> returns, and when it returns false
  the board is, cell for cell, the board it was called on: every guess that failed was
  undone from the copy taken before it.  In particular a failed top-level search leaves
  exactly the board that the seed assignments produced, with no guessed digit in it.
\<close>

theorem Board_Solve_failure_restores:
  assumes "length b = Size * Size"
  shows "\<exists>ok r. Board_Solve b = Inr (ok, r) \<and> (\<not> ok \<longrightarrow> r = b)"
proof -
  from assms have "length b = 81" by (simp add: Size_def)
  from Board_Solve_total(1) [OF this] obtain ok r where r: "Board_Solve b = Inr (ok, r)"
    by blast
  have "r = b" if "\<not> ok"
    using r that by (intro Board_Solve_restores(1)) simp
  with r show ?thesis by blast
qed

theorem Board_Solve_failure_restores_witness:
  "\<exists>ok r. Board_Solve
     [3, 1, 2, 64, 16, 4, 32, 8, 256, 256, 8, 4, 32, 128, 2, 1, 64, 16, 32, 64, 16, 8, 256, 1, 2,
      128, 4, 1, 16, 8, 2, 4, 64, 128, 256, 32, 4, 32, 256, 128, 8, 16, 64, 2, 1, 2, 128, 64, 1,
      32, 256, 16, 4, 8, 16, 2, 1, 256, 64, 8, 4, 32, 128, 8, 4, 128, 16, 2, 32, 256, 1, 64, 64,
      256, 32, 4, 1, 128, 8, 16, 2] = Inr (ok, r) \<and> \<not> ok \<and>
     r = [3, 1, 2, 64, 16, 4, 32, 8, 256, 256, 8, 4, 32, 128, 2, 1, 64, 16, 32, 64, 16, 8, 256, 1, 2,
      128, 4, 1, 16, 8, 2, 4, 64, 128, 256, 32, 4, 32, 256, 128, 8, 16, 64, 2, 1, 2, 128, 64, 1,
      32, 256, 16, 4, 8, 16, 2, 1, 256, 64, 8, 4, 32, 128, 8, 4, 128, 16, 2, 32, 256, 1, 64, 64,
      256, 32, 4, 1, 128, 8, 16, 2]"
proof -
  let ?b = "[3, 1, 2, 64, 16, 4, 32, 8, 256, 256, 8, 4, 32, 128, 2, 1, 64, 16, 32, 64, 16, 8, 256, 1, 2,
      128, 4, 1, 16, 8, 2, 4, 64, 128, 256, 32, 4, 32, 256, 128, 8, 16, 64, 2, 1, 2, 128, 64, 1,
      32, 256, 16, 4, 8, 16, 2, 1, 256, 64, 8, 4, 32, 128, 8, 4, 128, 16, 2, 32, 256, 1, 64, 64,
      256, 32, 4, 1, 128, 8, 16, 2] :: Board"
  have "length ?b = Size * Size" by (simp add: Size_def)
  from Board_Solve_failure_restores [OF this] obtain ok r where
    r: "Board_Solve ?b = Inr (ok, r)" "\<not> ok \<longrightarrow> r = ?b" by blast
  have "Board_Solve ?b = Inr (False, ?b)" by code_simp
  with r have "\<not> ok" by simp
  with r show ?thesis by blast
qed

text \<open>
  Claim C7.  \<^verbatim>\<open>Solve\<close> terminates on every board.  The recursion of \<^verbatim>\<open>Set\<close> and the
  recursion of \<^verbatim>\<open>Solve\<close> are well-founded from every argument (the domain predicates
  of the two definitions hold everywhere), \<^verbatim>\<open>Solve\<close> returns a result on every board of
  81 cells, and it never nests deeper than the number of cells that hold more than one
  candidate when it starts: the search with that depth budget is the search.  That number
  is at most 81.
\<close>

theorem Board_Solve_depth_bounded:
  assumes "length b = Size * Size"
  shows "Board_Solve_Board_Solve_guess_dom (Inl b) \<and>
         (\<forall>i j d. Board_Set_Board_Set_range_dom (Inl (b, i, j, d))) \<and>
         (\<exists>ok r. Board_Solve b = Inr (ok, r)) \<and>
         Board_Solve_upto (unresolved b) b = Some (Board_Solve b) \<and>
         unresolved b \<le> Size * Size"
proof -
  from assms have l: "length b = 81" by (simp add: Size_def)
  have "Board_Solve_Board_Solve_guess_dom (Inl b)"
    using Board_Solve_terminates by blast
  moreover have "\<forall>i j d. Board_Set_Board_Set_range_dom (Inl (b, i, j, d))"
    using Board_Set_terminates by blast
  moreover have "\<exists>ok r. Board_Solve b = Inr (ok, r)"
    using Board_Solve_total(1) [OF l] by blast
  moreover have "Board_Solve_upto (unresolved b) b = Some (Board_Solve b)"
    by (rule Board_Solve_upto_enough(1)) simp
  moreover have "unresolved b \<le> Size * Size"
    using unresolved_le_length [of b] assms by simp
  ultimately show ?thesis by blast
qed

theorem Board_Solve_depth_bounded_witness:
  "Board_Solve_upto 81 EmptyBoard = Some (Board_Solve EmptyBoard) \<and> unresolved EmptyBoard = 81"
proof -
  have "length EmptyBoard = Size * Size" by code_simp
  from Board_Solve_depth_bounded [OF this]
  have "Board_Solve_upto (unresolved EmptyBoard) EmptyBoard = Some (Board_Solve EmptyBoard)"
    by blast
  moreover have "unresolved EmptyBoard = 81" by code_simp
  ultimately show ?thesis by simp
qed

subsection \<open>The example puzzle, and contradictory clues\<close>

text \<open>
  The grid that the example's clues determine, row by row.  It is only used to show that
  the seeded board has a solution; the search finds its result on its own.
\<close>

definition example_grid :: "uint list" where
  "example_grid =
     [8, 1, 2, 7, 5, 3, 6, 4, 9,
      9, 4, 3, 6, 8, 2, 1, 7, 5,
      6, 7, 5, 4, 9, 1, 2, 8, 3,
      1, 5, 4, 2, 3, 7, 8, 9, 6,
      3, 6, 9, 8, 4, 5, 7, 2, 1,
      2, 8, 7, 1, 6, 9, 5, 3, 4,
      5, 2, 1, 9, 7, 4, 3, 6, 8,
      4, 3, 8, 5, 2, 6, 9, 1, 7,
      7, 9, 6, 3, 1, 8, 4, 5, 2]"

definition example_digit :: "pos \<Rightarrow> uint" where
  "example_digit p = example_grid ! idx p"

lemma sudoku_example: "sudoku example_digit"
proof -
  have "\<forall>p \<in> set Board_cells. \<forall>q \<in> set (peers p). example_digit q \<noteq> example_digit p"
    by code_simp
  then show ?thesis by (simp add: sudoku_def set_Board_cells)
qed

lemma seeds_example:
  "\<forall>(i, j, d) \<in> set seeds. valid (i, j) \<and> example_digit (i, j) = d \<and> Cell_IsSet All_Cell d"
  by code_simp

lemma agrees_EmptyBoard: "agrees EmptyBoard example_digit"
proof -
  have "\<forall>p \<in> set Board_cells. Cell_IsSet (EmptyBoard ! idx p) (example_digit p)"
    by code_simp
  then show ?thesis by (simp add: agrees_def set_Board_cells)
qed

definition Board_Solve_seeded :: "(int \<times> int \<times> uint) list \<Rightarrow> error + bool" where
  "Board_Solve_seeded xs =
     (case Board_Set_all EmptyBoard xs of
        Inl e \<Rightarrow> Inl e
      | Inr b \<Rightarrow> (case Board_Solve b of Inl e \<Rightarrow> Inl e | Inr (ok, r) \<Rightarrow> Inr ok))"

lemma within9_below:
  assumes "narrows b EmptyBoard"
  shows "within9 b"
proof -
  have "Cell_Count All_Cell = 9" by code_simp
  then have "within9 EmptyBoard" by (simp add: within9_def EmptyBoard_replicate)
  with assms show ?thesis by (rule within9_narrows)
qed

text \<open>
  Claim C5.  Seeding the empty board with the 21 clues of the example and running
  \<^verbatim>\<open>Solve\<close> returns true, and on the resulting board every cell is Single and every row,
  every column and every 3x3 box holds each of the digits 1..9 in exactly one cell.
\<close>

theorem main_solves_example:
  "\<exists>r. main = Inr (True, r) \<and> Board_Solved r = Inr True \<and>
       (\<forall>u \<in> set units. \<forall>d \<in> set digits. \<exists>!p. p \<in> set u \<and> Cell_Digit (r ! idx p) = d)"
proof -
  have v: "\<forall>(i, j, d) \<in> set seeds. valid (i, j)"
    and vs: "\<forall>(i, j, d) \<in> set seeds. valid (i, j) \<and> example_digit (i, j) = d"
    and vd: "\<forall>(i, j, d) \<in> set seeds. valid (i, j) \<and> Cell_IsSet All_Cell d"
    using seeds_example by auto
  from Board_Set_all_propagated [OF length_EmptyBoard propagated_EmptyBoard v]
  obtain b where b: "Board_Set_all EmptyBoard seeds = Inr b" "length b = 81" "propagated b"
    by blast
  from Board_Set_all_agrees [OF length_EmptyBoard agrees_EmptyBoard sudoku_example vs] b(1)
  have ab: "agrees b example_digit" by simp
  from Board_Set_all_below [OF narrows_refl vd] b(1)
  have nb: "narrows b EmptyBoard" by simp
  from Board_Solve_complete(1) [OF b(2) within9_below [OF nb] sudoku_example ab]
  obtain r where r: "Board_Solve b = Inr (True, r)" by blast
  from Board_Solve_sound(1) [OF r b(2)] b(3)
  have nr: "narrows r b" and single: "\<forall>p. valid p \<longrightarrow> Cell_Single (r ! idx p)"
    and pr: "propagated r" by blast+
  have lr: "length r = 81" using narrows_length [OF nr] b(2) by simp
  have nre: "narrows r EmptyBoard" using nr nb by (rule narrows_trans)
  have "main = Inr (True, r)" by (simp add: main_def b(1) r)
  moreover have "Board_Solved r = Inr True"
    using single by (simp add: Board_Solved_spec [OF lr])
  moreover have "\<exists>!p. p \<in> set u \<and> Cell_Digit (r ! idx p) = d"
    if "u \<in> set units" "d \<in> set digits" for u d
    using pr single nre units_shape that by (intro unit_once) auto
  ultimately show ?thesis by blast
qed

theorem main_solves_example_witness:
  "\<exists>r. main = Inr (True, r) \<and> Board_Solved r = Inr True \<and>
       (\<exists>!p. p \<in> set (map (\<lambda>j. (0, j)) [0..8]) \<and> Cell_Digit (r ! idx p) = 8)"
proof -
  from main_solves_example obtain r where r: "main = Inr (True, r)" "Board_Solved r = Inr True"
    and u: "\<forall>u \<in> set units. \<forall>d \<in> set digits. \<exists>!p. p \<in> set u \<and> Cell_Digit (r ! idx p) = d"
    by blast
  have "map (\<lambda>j. (0, j)) [0..8] \<in> set units" by code_simp
  moreover have "8 \<in> set digits" by (simp add: digits_def)
  ultimately have "\<exists>!p. p \<in> set (map (\<lambda>j. (0, j)) [0..8]) \<and> Cell_Digit (r ! idx p) = 8"
    using u by blast
  with r show ?thesis by blast
qed

subsection \<open>A puzzle whose clues clash\<close>

text \<open>
  The clues are applied with \<^verbatim>\<open>Set\<close>, which overwrites the cell it is given.  The digit a
  sequence of clues pre-assigns to a cell is therefore the one of the last clue for that
  cell.
\<close>

fun clue :: "(int \<times> int \<times> uint) list \<Rightarrow> pos \<Rightarrow> uint option" where
  "clue [] p = None"
| "clue ((i, j, d) # rest) p =
     (case clue rest p of
        Some e \<Rightarrow> Some e
      | None \<Rightarrow> if (i, j) = p then Some d else None)"

lemma clue_None: "clue xs p = None \<longleftrightarrow> p \<notin> (\<lambda>(i, j, d). (i, j)) ` set xs"
proof (induction xs)
  case Nil
  show ?case by simp
next
  case (Cons x xs)
  obtain i j d where x: "x = (i, j, d)" by (cases x)
  show ?case
  proof (cases "clue xs p")
    case None
    with Cons.IH show ?thesis by (auto simp: x)
  next
    case (Some e)
    with Cons.IH have "p \<in> (\<lambda>(i, j, d). (i, j)) ` set xs" by simp
    with Some show ?thesis by (simp add: x)
  qed
qed

lemma clue_Some:
  "clue xs p = Some d \<Longrightarrow> \<exists>A R. xs = A @ (fst p, snd p, d) # R \<and> clue R p = None"
proof (induction xs p rule: clue.induct)
  case (1 p)
  then show ?case by simp
next
  case (2 i j e rest p)
  show ?case
  proof (cases "clue rest p")
    case None
    with 2(2) have "(i, j) = p" "e = d" by (simp_all split: if_splits)
    with None have "(i, j, e) # rest = [] @ (fst p, snd p, d) # rest \<and> clue rest p = None"
      by auto
    then show ?thesis by blast
  next
    case (Some e')
    with 2(2) have "clue rest p = Some d" by simp
    from 2(1) [OF this] obtain A R where "rest = A @ (fst p, snd p, d) # R" "clue R p = None"
      by blast
    then have "(i, j, e) # rest = ((i, j, e) # A) @ (fst p, snd p, d) # R \<and> clue R p = None"
      by simp
    then show ?thesis by blast
  qed
qed

text \<open>
  A clue for a cell that is not given again, followed later by a clue with the same digit
  for a peer of that cell: the later assignment empties the cell, nothing fills it again,
  and a board with an empty cell is never solved.  What else the sequence holds, before,
  between and after, does not matter.
\<close>

lemma Board_Solve_seeded_clash:
  assumes "\<forall>(i, j, d) \<in> set xs. valid (i, j)"
    and "xs = A @ (fst p, snd p, d) # R" "clue R p = None"
    and "(qi, qj, d) \<in> set R" "related (qi, qj) p"
  shows "Board_Solve_seeded xs = Inr False"
proof -
  from assms(4) obtain B C where R: "R = B @ (qi, qj, d) # C" by (auto dest: split_list)
  have vA: "\<forall>(i, j, d) \<in> set A. valid (i, j)"
    and vR: "\<forall>(i, j, d') \<in> set (B @ (qi, qj, d) # C). valid (i, j)"
    and vp: "valid p"
    using assms(1) unfolding assms(2) R by auto
  have np: "p \<notin> (\<lambda>(i, j, d). (i, j)) ` set (B @ (qi, qj, d) # C)"
    using assms(3) unfolding R clue_None .
  from Board_Set_all_total [OF length_EmptyBoard vA] obtain b
    where b: "Board_Set_all EmptyBoard A = Inr b" "length b = 81" by blast
  from Board_Set_all_clash [OF b(2) vR vp assms(5) np] obtain r
    where r: "Board_Set_all b ((fst p, snd p, d) # B @ (qi, qj, d) # C) = Inr r" "length r = 81"
      "r ! idx p = 0" by auto
  from Board_Solve_dead [OF r(2) vp r(3)] obtain r' where "Board_Solve r = Inr (False, r')"
    by blast
  moreover have "Board_Set_all EmptyBoard xs = Inr r"
    unfolding assms(2) R using b(1) r(1) by (simp add: Board_Set_all_append)
  ultimately show ?thesis by (simp add: Board_Solve_seeded_def)
qed

lemma later_clue:
  assumes "xs = A @ x # R" "xs = A' @ y # R'" "length A < length A'"
  shows "y \<in> set R"
proof -
  have "y = xs ! length A'" using assms(2) by simp
  also have "\<dots> = R ! (length A' - Suc (length A))"
    using assms(3) unfolding assms(1) by (simp add: nth_append nth_Cons')
  also have "\<dots> \<in> set R"
  proof (rule nth_mem)
    have "length A' < length xs" using assms(2) by simp
    then show "length A' - Suc (length A) < length R"
      using assms(3) unfolding assms(1) by simp
  qed
  finally show ?thesis .
qed

lemma clash_seeded:
  "Board_Set_all EmptyBoard [(0, 1, 7), (0, 3, 7), (0, 1, 1), (2, 1, 7)] =
   Inr [446, 1, 446, 64, 446, 446, 446, 446, 446, 446, 446, 446, 447, 447,
      447, 511, 511, 511, 446, 64, 446, 447, 447, 447, 447, 447, 447, 511,
      446, 511, 447, 511, 511, 511, 511, 511, 511, 446, 511, 447, 511, 511,
      511, 511, 511, 511, 446, 511, 447, 511, 511, 511, 511, 511, 511, 446,
      511, 447, 511, 511, 511, 511, 511, 511, 446, 511, 447, 511, 511, 511,
      511, 511, 511, 446, 511, 447, 511, 511, 511, 511, 511]"
  by code_simp

text \<open>
  Only the last clue of a cell counts.  In the sequence below \<open>(0, 1)\<close> and \<open>(0, 3)\<close> are
  both given 7, but \<open>(0, 1)\<close> is then given 1: the puzzle pre-assigns 1 to it, no two cells
  of a row hold the same clue, and the search succeeds.
\<close>

lemma Board_Solve_seeded_replaced:
  "Board_Solve_seeded [(0, 1, 7), (0, 3, 7), (0, 1, 1), (2, 1, 7)] = Inr True"
proof -
  let ?b = "[446, 1, 446, 64, 446, 446, 446, 446, 446, 446, 446, 446, 447, 447,
      447, 511, 511, 511, 446, 64, 446, 447, 447, 447, 447, 447, 447, 511,
      446, 511, 447, 511, 511, 511, 511, 511, 511, 446, 511, 447, 511, 511,
      511, 511, 511, 511, 446, 511, 447, 511, 511, 511, 511, 511, 511, 446,
      511, 447, 511, 511, 511, 511, 511, 511, 446, 511, 447, 511, 511, 511,
      511, 511, 511, 446, 511, 447, 511, 511, 511, 511, 511] :: Board"
  have l: "length ?b = 81" by simp
  have "\<forall>p \<in> set Board_cells. Cell_IsSet (?b ! idx p) (example_digit p)" by code_simp
  then have a: "agrees ?b example_digit" by (simp add: agrees_def set_Board_cells)
  have "\<forall>(i, j, d) \<in> set [(0, 1, 7), (0, 3, 7), (0, 1, 1), (2, 1, 7)]. valid (i, j) \<and> Cell_IsSet All_Cell d"
    by code_simp
  from Board_Set_all_below [OF narrows_refl this] have "narrows ?b EmptyBoard"
    by (simp only: clash_seeded) simp
  then have w: "within9 ?b" by (rule within9_below)
  from Board_Solve_complete(1) [OF l w sudoku_example a]
  obtain r where "Board_Solve ?b = Inr (True, r)" by blast
  then show ?thesis unfolding Board_Solve_seeded_def clash_seeded by simp
qed

text \<open>
  Claim C6.  Take any sequence of clues at in-range coordinates, applied to the empty board
  with \<^verbatim>\<open>Set\<close>.  If two different cells of one row are both pre-assigned the same digit
  (\<open>clue\<close>: the last clue of each is that digit), the \<^verbatim>\<open>Solve\<close> that follows returns false.
  Cells may be given more than once and in any order.
\<close>

theorem Board_Solve_rejects_row_clash:
  assumes "\<forall>(i, j, d) \<in> set xs. valid (i, j)"
    and "clue xs (i, j1) = Some d" "clue xs (i, j2) = Some d" "j1 \<noteq> j2"
  shows "Board_Solve_seeded xs = Inr False"
proof -
  from clue_Some [OF assms(2)] obtain A1 R1
    where 1: "xs = A1 @ (i, j1, d) # R1" "clue R1 (i, j1) = None" by auto
  from clue_Some [OF assms(3)] obtain A2 R2
    where 2: "xs = A2 @ (i, j2, d) # R2" "clue R2 (i, j2) = None" by auto
  have "xs ! length A1 = (i, j1, d)" by (subst 1(1)) simp
  moreover have "xs ! length A2 = (i, j2, d)" by (subst 2(1)) simp
  ultimately have "length A1 \<noteq> length A2" using assms(4) by auto
  then consider "length A1 < length A2" | "length A2 < length A1" by linarith
  then show ?thesis
  proof cases
    case 1
    with \<open>xs = A1 @ (i, j1, d) # R1\<close> \<open>xs = A2 @ (i, j2, d) # R2\<close>
    have "(i, j2, d) \<in> set R1" by (rule later_clue)
    moreover have "related (i, j2) (i, j1)" using assms(4) by (simp add: related_def)
    ultimately show ?thesis
      using assms(1) \<open>xs = A1 @ (i, j1, d) # R1\<close> \<open>clue R1 (i, j1) = None\<close>
      by (intro Board_Solve_seeded_clash [where p = "(i, j1)" and qi = i and qj = j2]) simp_all
  next
    case 2
    with \<open>xs = A2 @ (i, j2, d) # R2\<close> \<open>xs = A1 @ (i, j1, d) # R1\<close>
    have "(i, j1, d) \<in> set R2" by (rule later_clue)
    moreover have "related (i, j1) (i, j2)" using assms(4) by (simp add: related_def)
    ultimately show ?thesis
      using assms(1) \<open>xs = A2 @ (i, j2, d) # R2\<close> \<open>clue R2 (i, j2) = None\<close>
      by (intro Board_Solve_seeded_clash [where p = "(i, j2)" and qi = i and qj = j1]) simp_all
  qed
qed

theorem Board_Solve_rejects_row_clash_witness:
  "Board_Solve_seeded [(4, 4, 1), (0, 0, 8), (4, 4, 1), (1, 2, 3), (0, 5, 8), (0, 0, 8)] = Inr False"
  by (rule Board_Solve_rejects_row_clash [of _ 0 0 8 5]) (simp_all add: valid_def)

lemma digit_in_range:
  fixes d :: uint
  assumes "1 \<le> d" "d \<le> 9"
  shows "unat (d - 1) < 16"
proof -
  from assms(2) have "unat d \<le> 9" by (simp add: word_le_nat_alt)
  moreover have "unat (d - 1) \<le> unat d" using assms(1) by (simp add: unat_sub)
  ultimately show ?thesis by simp
qed

lemma Cell_Single_one_digit:
  fixes d :: uint
  assumes "1 \<le> d" "d \<le> 9"
  shows "Cell_Single (Cell_Set (Cell_Clear c) d)"
proof -
  let ?c = "Cell_Set (Cell_Clear c) d"
  have "Cell_IsSet ?c d" using digit_in_range [OF assms] by (simp add: Cell_IsSet_Set_Clear)
  then have "1 \<le> Cell_Count ?c" by (rule Cell_Count_pos)
  with Cell_Count_Set_Clear [of c d] have "Cell_Count ?c = 1" by simp
  then show ?thesis by (simp only: Cell_Single_iff_Count)
qed

text \<open>
  Claim C10.  On every board, for in-range coordinates and every digit 1..9, after
  \<^verbatim>\<open>Board.Set(i, j, d)\<close> the cell \<open>(i, j)\<close> holds no candidate but \<open>d\<close>.  It is empty, and so
  not Single, exactly when the cascade has called \<^verbatim>\<open>Set\<close> with the digit \<open>d\<close> on some peer
  of \<open>(i, j)\<close>, which removes \<open>d\<close> from \<open>(i, j)\<close> again; in every other case it is exactly
  the one-digit cell \<open>{d}\<close>, Single with digit \<open>d\<close>.
\<close>

theorem Board_Set_own_cell:
  assumes "length b = Size * Size" and "valid (i, j)" and "1 \<le> d" "d \<le> 9"
  shows "\<exists>r. Board_Set b i j d = Inr r \<and>
           (\<forall>e. Cell_IsSet (r ! idx (i, j)) e \<longrightarrow> e = d) \<and>
           (if \<exists>q \<in> set (peers (i, j)). (fst q, snd q, d) \<in> set (Board_Set_calls b i j d)
            then r ! idx (i, j) = 0 \<and> \<not> Cell_Single (r ! idx (i, j))
            else r ! idx (i, j) = Cell_Set (Cell_Clear (b ! idx (i, j))) d \<and>
                 Cell_Single (r ! idx (i, j)) \<and> Cell_Digit (r ! idx (i, j)) = d)"
proof -
  let ?p = "(i, j)"
  let ?k = "idx ?p"
  let ?c = "Cell_Set (Cell_Clear (b ! ?k)) d"
  let ?b0 = "b[?k := ?c]"
  let ?rows = "map (\<lambda>(jj, c). (j \<noteq> jj, (i, jj), c)) (Board_Row b i)"
  let ?cols = "map (\<lambda>(ii, c). (i \<noteq> ii, (ii, j), c)) (Board_Col b j)"
  let ?box = "map (\<lambda>(xy, c). (True, xy, c)) (Board_Box b i j)"
  note vp = assms(2)
  from assms(1) have len: "length b = 81" by (simp add: Size_def)
  have l0: "length ?b0 = 81" using len by simp
  have kl: "?k < length b" using idx_less [OF vp] len by simp
  have at: "Board_At b i j = Inr ?k" using len vp by (rule Board_At_valid)
  have single: "Cell_Single ?c" using assms(3,4) by (rule Cell_Single_one_digit)
  have has: "Cell_IsSet ?c d"
    using digit_in_range [OF assms(3,4)] by (simp add: Cell_IsSet_Set_Clear)
  from Board_Set_valid [OF len vp, of d] obtain r
    where r: "Board_Set b i j d = Inr r" "resolve b ?p d r" by blast
  from r(1) at obtain b1 b2 where b1: "Board_Set_range ?b0 d ?rows = Inr b1"
    and b2: "Board_Set_range b1 d ?cols = Inr b2"
    and b3: "Board_Set_range b2 d ?box = Inr r"
    by (subst (asm) Board_Set.simps) (auto split: sum.splits)
  have lw1: "lawful ?rows" using len vp by (rule lawful_Row)
  have lw2: "lawful ?cols" using len vp by (rule lawful_Col)
  have lw3: "lawful ?box" using len vp by (rule lawful_Box)
  have only0: "\<forall>e'. Cell_IsSet (?b0 ! ?k) e' \<longrightarrow> e' = d"
    using kl by (simp add: Cell_IsSet_Set_Clear)
  have n1: "narrows b1 ?b0" using b1 l0 lw1 by (rule Board_Set_range_narrows)
  have l1: "length b1 = 81" using narrows_length [OF n1] l0 by simp
  have only1: "\<forall>e'. Cell_IsSet (b1 ! ?k) e' \<longrightarrow> e' = d"
    using n1 l0 vp only0 by (rule only_narrows)
  have n2: "narrows b2 b1" using b2 l1 lw2 by (rule Board_Set_range_narrows)
  have l2: "length b2 = 81" using narrows_length [OF n2] l1 by simp
  have only2: "\<forall>e'. Cell_IsSet (b2 ! ?k) e' \<longrightarrow> e' = d"
    using n2 l1 vp only1 by (rule only_narrows)
  have n3: "narrows r b2" using b3 l2 lw3 by (rule Board_Set_range_narrows)
  have only3: "\<forall>e. Cell_IsSet (r ! ?k) e \<longrightarrow> e = d"
    using n3 l2 vp only2 by (rule only_narrows)
  have self: "?p \<notin> set (peers ?p)" using peers_neq [OF vp] by blast
  note s1 = Board_Set_calls_gone(2) [OF vp l0 lw1 only0 b1, unfolded targets_Row]
  note s2 = Board_Set_calls_gone(2) [OF vp l1 lw2 only1 b2, unfolded targets_Col]
  note s3 = Board_Set_calls_gone(2) [OF vp l2 lw3 only2 b3, unfolded targets_Box [OF vp]]
  have calls: "Board_Set_calls b i j d =
      (i, j, d) # Board_Set_range_calls ?b0 d ?rows @ Board_Set_range_calls b1 d ?cols @
        Board_Set_range_calls b2 d ?box"
    using at b1 b2 by (subst Board_Set_calls.simps) simp
  have b0k: "Cell_IsSet (?b0 ! ?k) d" using has kl by simp
  have gone: "\<not> Cell_IsSet (r ! ?k) d \<longleftrightarrow>
      (\<exists>q \<in> set (peers ?p). (fst q, snd q, d) \<in> set (Board_Set_calls b i j d))"
    unfolding s3 s2 s1 calls using self b0k by (auto simp: peers_def)
  have sub: "Cell_IsSet ?c e" if "Cell_IsSet (r ! ?k) e" for e
    using only3 that has by auto
  then have two: "r ! ?k = ?c \<or> r ! ?k = 0" by (rule narrowed_singleton)
  show ?thesis
  proof (cases "\<exists>q \<in> set (peers ?p). (fst q, snd q, d) \<in> set (Board_Set_calls b i j d)")
    case True
    with gone have "\<not> Cell_IsSet (r ! ?k) d" by simp
    with two has have "r ! ?k = 0" by auto
    with True r(1) only3 show ?thesis by auto
  next
    case False
    with gone have "Cell_IsSet (r ! ?k) d" by simp
    with two have "r ! ?k = ?c" by auto
    with False r(1) only3 single Cell_Digit_Set_Clear [OF single] show ?thesis by auto
  qed
qed

theorem Board_Set_own_cell_witness:
  "(\<exists>r. Board_Set ((replicate 81 All_Cell)[1 := 3, 2 := 3]) 0 0 1 = Inr r \<and>
        (0, 2, 1) \<in> set (Board_Set_calls ((replicate 81 All_Cell)[1 := 3, 2 := 3]) 0 0 1) \<and>
        r ! idx (0, 0) = 0 \<and> \<not> Cell_Single (r ! idx (0, 0))) \<and>
   (\<exists>r. Board_Set EmptyBoard 0 0 1 = Inr r \<and> Board_Set_calls EmptyBoard 0 0 1 = [(0, 0, 1)] \<and>
        r ! idx (0, 0) = 1 \<and> Cell_Single (r ! idx (0, 0)))"
proof
  let ?b = "(replicate 81 All_Cell)[1 := 3, 2 := 3]"
  have len: "length ?b = Size * Size" by (simp add: Size_def)
  have v: "valid (0, 0)" by (simp add: valid_def)
  have calls: "Board_Set_calls ?b 0 0 1 = [(0, 0, 1), (0, 1, 2), (0, 2, 1)]" by code_simp
  have again: "\<exists>q \<in> set (peers (0, 0)). (fst q, snd q, 1) \<in> set (Board_Set_calls ?b 0 0 1)"
    unfolding calls by code_simp
  from Board_Set_own_cell [OF len v, of 1] again obtain r
    where "Board_Set ?b 0 0 1 = Inr r" "r ! idx (0, 0) = 0" "\<not> Cell_Single (r ! idx (0, 0))"
    by auto
  then show "\<exists>r. Board_Set ?b 0 0 1 = Inr r \<and> (0, 2, 1) \<in> set (Board_Set_calls ?b 0 0 1) \<and>
      r ! idx (0, 0) = 0 \<and> \<not> Cell_Single (r ! idx (0, 0))"
    unfolding calls by auto
next
  have len: "length EmptyBoard = Size * Size" by (simp add: length_EmptyBoard Size_def)
  have v: "valid (0, 0)" by (simp add: valid_def)
  have calls: "Board_Set_calls EmptyBoard 0 0 1 = [(0, 0, 1)]" by code_simp
  have none: "\<not> (\<exists>q \<in> set (peers (0, 0)). (fst q, snd q, 1) \<in> set (Board_Set_calls EmptyBoard 0 0 1))"
    unfolding calls by code_simp
  have one: "Cell_Set (Cell_Clear (EmptyBoard ! idx (0, 0))) 1 = 1" by code_simp
  from Board_Set_own_cell [OF len v, of 1] none obtain r
    where "Board_Set EmptyBoard 0 0 1 = Inr r"
      "r ! idx (0, 0) = Cell_Set (Cell_Clear (EmptyBoard ! idx (0, 0))) 1" "Cell_Single (r ! idx (0, 0))"
    by auto
  then show "\<exists>r. Board_Set EmptyBoard 0 0 1 = Inr r \<and> Board_Set_calls EmptyBoard 0 0 1 = [(0, 0, 1)] \<and>
      r ! idx (0, 0) = 1 \<and> Cell_Single (r ! idx (0, 0))"
    unfolding calls one by auto
qed

end
